theory Spec2Isabelle
  imports Complex_Main "HOL-Library.Multiset"
begin

section \<open>Errors\<close>

text \<open>
  The exceptions the modelled Python can raise.  \<open>StopIteration\<close> is what
  \<^verbatim>\<open>next(upper_inds)\<close> raises on an exhausted iterator.  The next six are
  \<^verbatim>\<open>ValueError\<close>s, told apart by what raises them: \<^verbatim>\<open>ndarray.reshape\<close> on a shape of
  another size (the shape error of the contraction functions), \<^verbatim>\<open>einsum\<close>, an operation
  or assignment whose operands do not broadcast, \<^verbatim>\<open>vdot\<close> on vectors of different sizes,
  \<^verbatim>\<open>math.sqrt\<close> of a negative number, and scipy's check that an array holds no NaN and
  no infinity.  \<open>IndexError\<close>, \<open>ZeroDivisionError\<close> and \<open>NotImplementedError\<close> are
  Python's.  \<open>OtherError\<close> stands for what an operator or solver passed by the caller
  raises.
\<close>

datatype error =
    StopIteration
  | ReshapeError
  | EinsumError
  | BroadcastError
  | VdotSizeError
  | MathDomainError
  | NonFiniteError
  | IndexError
  | ZeroDivisionError
  | NotImplementedError
  | OtherError

section \<open>The spin-Hamiltonian builder (\<^verbatim>\<open>tensor_gen.py\<close>)\<close>

text \<open>
  An operator argument of \<^verbatim>\<open>add_term\<close> is a string (a name for \<^verbatim>\<open>spin_operator\<close>)
  or an array.  A term is the tuple \<^verbatim>\<open>(factor, *operators)\<close>.
\<close>

datatype operator = OpStr string | OpArr "complex list list"

type_synonym term_tuple = "complex \<times> operator list"

record MPOSpinHam =
  S :: real
  one_site_terms :: "term_tuple list"
  two_site_terms :: "term_tuple list"

definition MPOSpinHam_init :: "real \<Rightarrow> MPOSpinHam" where
  "MPOSpinHam_init s = \<lparr>S = s, one_site_terms = [], two_site_terms = []\<rparr>"

text \<open>
  \<^verbatim>\<open>add_term(self, factor, *operators)\<close>.  The result pairs what the call does
  (returns \<^verbatim>\<open>None\<close>, or raises) with the builder as it is after the call.
\<close>

definition add_term :: "MPOSpinHam \<Rightarrow> complex \<Rightarrow> operator list \<Rightarrow> (error + unit) \<times> MPOSpinHam" where
  "add_term self factor operators =
     (if length operators = 1 then
        (Inr (), self\<lparr>one_site_terms := one_site_terms self @ [(factor, operators)]\<rparr>)
      else if length operators = 2 then
        (Inr (), self\<lparr>two_site_terms := two_site_terms self @ [(factor, operators)]\<rparr>)
      else (Inl NotImplementedError, self))"

section \<open>The index planners (\<^verbatim>\<open>approx_linalg.py\<close>)\<close>

text \<open>
  \<^verbatim>\<open>range(a, b)\<close> over Python integers; \<^verbatim>\<open>range(n)\<close> is \<open>py_range 0 n\<close>.
\<close>

definition py_range :: "int \<Rightarrow> int \<Rightarrow> int list" where
  "py_range a b = [a..b - 1]"

text \<open>
  \<^verbatim>\<open>int2tup\<close>: a subsystem argument is an \<^verbatim>\<open>int\<close>, a \<^verbatim>\<open>tuple\<close> or another sequence;
  all become a tuple of integers.
\<close>

datatype sys_arg = SysInt int | SysTuple "int list" | SysSeq "int list"

fun int2tup :: "sys_arg \<Rightarrow> int list" where
  "int2tup (SysTuple x) = x"
| "int2tup (SysInt x) = [x]"
| "int2tup (SysSeq x) = x"

text \<open>
  The loop of \<^verbatim>\<open>get_cntrct_inds_ptr_dot\<close> over the remaining indices \<open>is\<close>, with the
  remaining items of the iterator \<^verbatim>\<open>upper_inds\<close> and the three lists built so far.
\<close>

type_synonym plan3 = "int list \<times> int list \<times> int list"

fun ptr_dot_loop :: "int list \<Rightarrow> int list \<Rightarrow> int list \<Rightarrow> plan3 \<Rightarrow> error + plan3" where
  "ptr_dot_loop [] sysa upper_inds p = Inr p"
| "ptr_dot_loop (i # is) sysa upper_inds (inds_a_ket, inds_ab_bra, inds_ab_ket) =
     (if i \<in> set sysa then
        (case upper_inds of
           [] \<Rightarrow> Inl StopIteration
         | u # us \<Rightarrow>
             ptr_dot_loop is sysa us (inds_a_ket @ [i], inds_ab_bra @ [i], inds_ab_ket @ [u]))
      else ptr_dot_loop is sysa upper_inds (inds_a_ket, inds_ab_bra @ [i], inds_ab_ket @ [i]))"

definition get_cntrct_inds_ptr_dot :: "int \<Rightarrow> int list \<Rightarrow> error + plan3" where
  "get_cntrct_inds_ptr_dot ndim_ab sysa =
     ptr_dot_loop (py_range 0 ndim_ab) sysa (py_range ndim_ab (2 * ndim_ab)) ([], [], [])"

type_synonym plan4 = "int list \<times> int list \<times> int list \<times> int list"

fun ptr_ppt_dot_loop ::
  "int list \<Rightarrow> int list \<Rightarrow> int list \<Rightarrow> int list \<Rightarrow> plan4 \<Rightarrow> error + plan4" where
  "ptr_ppt_dot_loop [] sysa sysb upper_inds p = Inr p"
| "ptr_ppt_dot_loop (i # is) sysa sysb upper_inds
       (inds_ab_ket, inds_abc_bra, inds_abc_ket, inds_out) =
     (if i \<in> set sysa then
        (case upper_inds of
           [] \<Rightarrow> Inl StopIteration
         | up_ind # us \<Rightarrow>
             ptr_ppt_dot_loop is sysa sysb us
               (inds_ab_ket @ [i], inds_abc_bra @ [up_ind], inds_abc_ket @ [i],
                inds_out @ [up_ind]))
      else if i \<in> set sysb then
        (case upper_inds of
           [] \<Rightarrow> Inl StopIteration
         | up_ind # us \<Rightarrow>
             ptr_ppt_dot_loop is sysa sysb us
               (inds_ab_ket @ [up_ind], inds_abc_bra @ [up_ind], inds_abc_ket @ [i],
                inds_out @ [i]))
      else
        ptr_ppt_dot_loop is sysa sysb upper_inds
          (inds_ab_ket, inds_abc_bra @ [i], inds_abc_ket @ [i], inds_out))"

definition get_cntrct_inds_ptr_ppt_dot :: "int \<Rightarrow> int list \<Rightarrow> int list \<Rightarrow> error + plan4" where
  "get_cntrct_inds_ptr_ppt_dot ndim_abc sysa sysb =
     ptr_ppt_dot_loop (py_range 0 ndim_abc) sysa sysb (py_range ndim_abc (2 * ndim_abc))
       ([], [], [], [])"

text \<open>The fresh label drawn for a kept index: the kept indices, in the order of the
  walk, take the items of the iterator one by one.\<close>

definition fresh_of :: "(int \<Rightarrow> bool) \<Rightarrow> int list \<Rightarrow> int list \<Rightarrow> int \<Rightarrow> int" where
  "fresh_of P js ups i = (case map_of (zip (filter P js) ups) i of Some u \<Rightarrow> u | None \<Rightarrow> i)"

section \<open>Arrays and the contraction primitive\<close>

text \<open>
  A numpy array of complex numbers: its shape and its buffer in C (row-major) order.
  A ket is such an array, of shape \<open>(d,)\<close> or \<open>(d, 1)\<close>.  It is an array when the
  buffer has as many items as the shape says.
\<close>

record ndarray =
  shape :: "nat list"
  data :: "complex list"

definition is_array :: "ndarray \<Rightarrow> bool" where
  "is_array a = (length (data a) = prod_list (shape a))"

definition nd_size :: "ndarray \<Rightarrow> nat" where
  "nd_size a = prod_list (shape a)"

definition asarray :: "ndarray \<Rightarrow> ndarray" where
  "asarray a = a"

text \<open>
  \<^verbatim>\<open>a.reshape(newshape)\<close> for a shape of natural numbers: the buffer stays, the shape
  changes; numpy raises \<^verbatim>\<open>ValueError\<close> when the sizes differ.
\<close>

definition reshape :: "ndarray \<Rightarrow> nat list \<Rightarrow> error + ndarray" where
  "reshape a newshape =
     (if prod_list newshape = nd_size a then Inr \<lparr>shape = newshape, data = data a\<rparr>
      else Inl ReshapeError)"

definition conjugate :: "ndarray \<Rightarrow> ndarray" where
  "conjugate a = \<lparr>shape = shape a, data = map cnj (data a)\<rparr>"

text \<open>The offset of a multi-index in the buffer, and all multi-indices of a shape in
  C order (as \<^verbatim>\<open>numpy.ravel_multi_index\<close> and \<^verbatim>\<open>numpy.ndindex\<close>).\<close>

fun ravel_multi_index :: "nat list \<Rightarrow> nat list \<Rightarrow> nat" where
  "ravel_multi_index (i # idx) (d # ds) = i * prod_list ds + ravel_multi_index idx ds"
| "ravel_multi_index idx ds = 0"

fun ndindex :: "nat list \<Rightarrow> nat list list" where
  "ndindex [] = [[]]"
| "ndindex (d # ds) = concat (map (\<lambda>i. map ((#) i) (ndindex ds)) [0..<d])"

definition item :: "ndarray \<Rightarrow> nat list \<Rightarrow> complex" where
  "item a idx = data a ! ravel_multi_index idx (shape a)"

text \<open>
  Modelled from the spec: \<^verbatim>\<open>einsum\<close> is imported from \<^verbatim>\<open>opt_einsum\<close> or \<^verbatim>\<open>numpy\<close>,
  neither of which is part of the repository.  It is the generic contraction primitive of
  the spec: it takes (tensor, integer-label-sequence) pairs and an optional output-label
  sequence, sums over the labels that are not output labels, and returns the tensor
  indexed by the output labels, which by default are the labels that occur once, sorted.
  A label bound to axes of different sizes, a label sequence that is not as long as its
  tensor has axes, a repeated output label or an output label bound nowhere is an error.
\<close>

type_synonym operand = "ndarray \<times> int list"

definition axis_sizes :: "operand list \<Rightarrow> (int \<times> nat) list" where
  "axis_sizes ops = concat (map (\<lambda>(t, ls). zip ls (shape t)) ops)"

definition label_size :: "operand list \<Rightarrow> int \<Rightarrow> nat" where
  "label_size ops l = (case map_of (axis_sizes ops) l of Some d \<Rightarrow> d | None \<Rightarrow> 0)"

definition einsum_valid :: "operand list \<Rightarrow> int list \<Rightarrow> bool" where
  "einsum_valid ops out =
     (list_all (\<lambda>(t, ls). length ls = length (shape t)) ops \<and>
      list_all (\<lambda>(l, d). label_size ops l = d) (axis_sizes ops) \<and>
      distinct out \<and>
      list_all (\<lambda>l. l \<in> set (concat (map snd ops))) out)"

definition assign :: "int list \<Rightarrow> nat list \<Rightarrow> int \<Rightarrow> nat" where
  "assign ls idx l = (case map_of (zip ls idx) l of Some i \<Rightarrow> i | None \<Rightarrow> 0)"

definition einsum :: "operand list \<Rightarrow> int list option \<Rightarrow> error + ndarray" where
  "einsum ops out_opt =
     (let labels = concat (map snd ops);
          out = (case out_opt of
                   Some ls \<Rightarrow> ls
                 | None \<Rightarrow> sort (filter (\<lambda>l. count_list labels l = 1) (remdups labels)));
          summed = sort (filter (\<lambda>l. l \<notin> set out) (remdups labels))
      in if \<not> einsum_valid ops out then Inl EinsumError
         else Inr \<lparr>shape = map (label_size ops) out,
                   data =
                     map (\<lambda>oi. sum_list
                            (map (\<lambda>si. prod_list
                                    (map (\<lambda>(t, ls). item t (map (assign (out @ summed) (oi @ si)) ls))
                                       ops))
                               (ndindex (map (label_size ops) summed))))
                       (ndindex (map (label_size ops) out))\<rparr>)"

text \<open>
  The module binds \<^verbatim>\<open>einsum\<close> to \<^verbatim>\<open>opt_einsum.contract\<close> when that library can be
  imported, and to \<^verbatim>\<open>numpy.einsum\<close> otherwise.  Neither is part of the repository.
  Both are the contraction primitive above when the output labels are given.  They
  differ in the default output labels: numpy lists the labels that occur once in the
  order of the integers (\<open>einsum\<close> above), \<^verbatim>\<open>opt_einsum\<close> in the order of the characters
  it names them by.  It names the label \<open>i\<close> by the \<open>i\<close>-th character of
  \<^verbatim>\<open>abcdefghijklmnopqrstuvwxyzABCDEFGHIJKLMNOPQRSTUVWXYZ\<close> when \<open>i < 52\<close>, and by
  \<^verbatim>\<open>chr(i + 140)\<close> otherwise, so that the labels 26 to 51 come before the labels 0 to 25.
  \<open>symbol_ord i\<close> is the code point of that character.  (Later versions of the library
  name a label by its rank among the labels in use; the labels of a plan are the integers
  from 0 on without a gap, so that they get the same characters.)
\<close>

definition symbol_ord :: "int \<Rightarrow> int" where
  "symbol_ord i = (if i < 26 then 97 + i else if i < 52 then 65 + (i - 26) else i + 140)"

definition contract :: "operand list \<Rightarrow> int list option \<Rightarrow> error + ndarray" where
  "contract ops out_opt =
     (case out_opt of
        Some ls \<Rightarrow> einsum ops (Some ls)
      | None \<Rightarrow>
          (let labels = concat (map snd ops)
           in einsum ops
                (Some (sort_key symbol_ord
                         (filter (\<lambda>l. count_list labels l = 1) (remdups labels))))))"

section \<open>The lazy contraction functions (\<^verbatim>\<open>approx_linalg.py\<close>)\<close>

text \<open>\<^verbatim>\<open>[d for i, d in enumerate(dims) if i in sys]\<close>.\<close>

definition dims_of :: "nat list \<Rightarrow> int list \<Rightarrow> nat list" where
  "dims_of dims sys = map snd (filter (\<lambda>(i, d). int i \<in> set sys) (enumerate 0 dims))"

text \<open>
  The module binds the name \<^verbatim>\<open>einsum\<close> when it is imported, to \<^verbatim>\<open>opt_einsum.contract\<close>
  or else to \<^verbatim>\<open>numpy.einsum\<close>; the functions below take that binding as their first
  argument \<open>ein\<close>.
\<close>

type_synonym contraction = "operand list \<Rightarrow> int list option \<Rightarrow> error + ndarray"

text \<open>
  \<^verbatim>\<open>lazy_ptr_dot(psi_ab, psi_a, dims=None, sysa=0)\<close>.  An omitted argument is \<open>None\<close>.
  A dimension vector is a sequence of natural numbers.  The statements run in the order
  of the source: the first that raises ends the call.
\<close>

definition lazy_ptr_dot ::
  "contraction \<Rightarrow> ndarray \<Rightarrow> ndarray \<Rightarrow> nat list option \<Rightarrow> sys_arg option
   \<Rightarrow> error + ndarray" where
  "lazy_ptr_dot ein psi_ab psi_a dims_arg sysa_arg =
     (case (case dims_arg of
              None \<Rightarrow>
                (let da = nd_size psi_a; d = nd_size psi_ab
                 in if da = 0 then Inl ZeroDivisionError else Inr [da, d div da])
            | Some ds \<Rightarrow> Inr ds) of
        Inl e \<Rightarrow> Inl e
      | Inr dims \<Rightarrow>
          (let sysa = int2tup (case sysa_arg of None \<Rightarrow> SysInt 0 | Some s \<Rightarrow> s);
               ndim_ab = int (length dims);
               dims_a = dims_of dims sysa
           in case get_cntrct_inds_ptr_dot ndim_ab sysa of
                Inl e \<Rightarrow> Inl e
              | Inr (inds_a_ket, inds_ab_bra, inds_ab_ket) \<Rightarrow>
                  (case reshape (asarray psi_ab) dims of
                     Inl e \<Rightarrow> Inl e
                   | Inr psi_ab_tensor \<Rightarrow>
                       (case reshape (asarray psi_a) dims_a of
                          Inl e \<Rightarrow> Inl e
                        | Inr psi_a_tensor \<Rightarrow>
                            (case ein [(psi_a_tensor, inds_a_ket),
                                       (conjugate psi_ab_tensor, inds_ab_bra),
                                       (psi_ab_tensor, inds_ab_ket)] None of
                               Inl e \<Rightarrow> Inl e
                             | Inr r \<Rightarrow> reshape r (shape psi_a))))))"

text \<open>\<^verbatim>\<open>lazy_ptr_ppt_dot(psi_abc, psi_ab, dims, sysa, sysb)\<close>.\<close>

definition lazy_ptr_ppt_dot ::
  "contraction \<Rightarrow> ndarray \<Rightarrow> ndarray \<Rightarrow> nat list \<Rightarrow> sys_arg \<Rightarrow> sys_arg
   \<Rightarrow> error + ndarray" where
  "lazy_ptr_ppt_dot ein psi_abc psi_ab dims sysa_arg sysb_arg =
     (let sysa = int2tup sysa_arg; sysb = int2tup sysb_arg
      in case get_cntrct_inds_ptr_ppt_dot (int (length dims)) sysa sysb of
           Inl e \<Rightarrow> Inl e
         | Inr (inds_ab_ket, inds_abc_bra, inds_abc_ket, inds_out) \<Rightarrow>
             (case reshape (asarray psi_abc) dims of
                Inl e \<Rightarrow> Inl e
              | Inr psi_abc_tensor \<Rightarrow>
                  (let dims_ab = map snd (filter (\<lambda>(i, d). int i \<in> set sysa \<or> int i \<in> set sysb)
                                            (enumerate 0 dims))
                   in case reshape (asarray psi_ab) dims_ab of
                        Inl e \<Rightarrow> Inl e
                      | Inr psi_ab_tensor \<Rightarrow>
                          (case ein [(psi_ab_tensor, inds_ab_ket),
                                     (conjugate psi_abc_tensor, inds_abc_bra),
                                     (psi_abc_tensor, inds_abc_ket)] (Some inds_out) of
                             Inl e \<Rightarrow> Inl e
                           | Inr r \<Rightarrow> reshape r (shape psi_ab)))))"

section \<open>The linear operators (\<^verbatim>\<open>approx_linalg.py\<close>)\<close>

text \<open>
  The two subclasses of \<^verbatim>\<open>scipy.sparse.linalg.LinearOperator\<close>: the fields set by
  \<^verbatim>\<open>__init__\<close> (the \<^verbatim>\<open>dtype\<close> is that of the ket, complex throughout the model), and
  the methods \<^verbatim>\<open>_matvec\<close> and \<^verbatim>\<open>_adjoint\<close>.  \<^verbatim>\<open>prod\<close> comes from the module
  \<^verbatim>\<open>accel\<close>, which is not among the source files: it is the product of a list.
\<close>

record LazyPtrOperatr =
  op_psi_ab :: ndarray
  op_dims :: "nat list"
  op_sysa :: "int list"
  op_shape :: "nat \<times> nat"

definition LazyPtrOperatr_init :: "ndarray \<Rightarrow> nat list \<Rightarrow> sys_arg \<Rightarrow> LazyPtrOperatr" where
  "LazyPtrOperatr_init psi_ab dims sysa =
     (let sysa' = int2tup sysa;
          dims_a = dims_of dims sysa';
          sz_a = prod_list dims_a
      in \<lparr>op_psi_ab = psi_ab, op_dims = dims, op_sysa = sysa', op_shape = (sz_a, sz_a)\<rparr>)"

definition LazyPtrOperatr_matvec ::
  "contraction \<Rightarrow> LazyPtrOperatr \<Rightarrow> ndarray \<Rightarrow> error + ndarray" where
  "LazyPtrOperatr_matvec ein self vec =
     lazy_ptr_dot ein (op_psi_ab self) vec (Some (op_dims self)) (Some (SysTuple (op_sysa self)))"

definition LazyPtrOperatr_adjoint :: "LazyPtrOperatr \<Rightarrow> LazyPtrOperatr" where
  "LazyPtrOperatr_adjoint self =
     LazyPtrOperatr_init (conjugate (op_psi_ab self)) (op_dims self) (SysTuple (op_sysa self))"

record LazyPtrPptOperator =
  ppt_psi_abc :: ndarray
  ppt_dims :: "nat list"
  ppt_sysa :: "int list"
  ppt_sysb :: "int list"
  ppt_shape :: "nat \<times> nat"

definition LazyPtrPptOperator_init ::
  "ndarray \<Rightarrow> nat list \<Rightarrow> sys_arg \<Rightarrow> sys_arg \<Rightarrow> LazyPtrPptOperator" where
  "LazyPtrPptOperator_init psi_abc dims sysa sysb =
     (let sysa' = int2tup sysa; sysb' = int2tup sysb;
          sys_ab = sysa' @ sysb';
          sz_ab = prod_list (dims_of dims sys_ab)
      in \<lparr>ppt_psi_abc = psi_abc, ppt_dims = dims, ppt_sysa = sysa', ppt_sysb = sysb',
          ppt_shape = (sz_ab, sz_ab)\<rparr>)"

definition LazyPtrPptOperator_matvec ::
  "contraction \<Rightarrow> LazyPtrPptOperator \<Rightarrow> ndarray \<Rightarrow> error + ndarray" where
  "LazyPtrPptOperator_matvec ein self vec =
     lazy_ptr_ppt_dot ein (ppt_psi_abc self) vec (ppt_dims self)
       (SysTuple (ppt_sysa self)) (SysTuple (ppt_sysb self))"

definition LazyPtrPptOperator_adjoint :: "LazyPtrPptOperator \<Rightarrow> LazyPtrPptOperator" where
  "LazyPtrPptOperator_adjoint self =
     LazyPtrPptOperator_init (conjugate (ppt_psi_abc self)) (ppt_dims self)
       (SysTuple (ppt_sysa self)) (SysTuple (ppt_sysb self))"

text \<open>\<^verbatim>\<open>numpy.vdot\<close>: the inner product, conjugate-linear in its first argument.\<close>

definition vdot :: "complex list \<Rightarrow> complex list \<Rightarrow> complex" where
  "vdot x y = sum_list (map2 (\<lambda>a b. cnj a * b) x y)"

section \<open>The explicit reduced density matrix\<close>

text \<open>
  Modelled from the spec: the explicit computation the lazy functions are compared with
  (the repository's partial trace and partial transpose are not among the source files).
  A matrix is the list of its rows.  \<open>outer psi\<close> is the outer product of a ket with its
  conjugate.  A mask marks the kept subsystems; \<open>select\<close> restricts a list to the marked
  positions and \<open>merge\<close> interleaves a multi-index of the kept subsystems with one of the
  others.  The partial trace sums the entries whose row and column agree on the
  subsystems that are traced out.
\<close>

definition outer :: "complex list \<Rightarrow> complex list list" where
  "outer psi = map (\<lambda>x. map (\<lambda>y. x * cnj y) psi) psi"

definition keep_mask :: "nat \<Rightarrow> int list \<Rightarrow> bool list" where
  "keep_mask n sys = map (\<lambda>i. int i \<in> set sys) [0..<n]"

fun select :: "bool list \<Rightarrow> 'a list \<Rightarrow> 'a list" where
  "select (k # ks) (x # xs) = (if k then x # select ks xs else select ks xs)"
| "select ks xs = []"

fun merge :: "bool list \<Rightarrow> 'a list \<Rightarrow> 'a list \<Rightarrow> 'a list" where
  "merge (True # ks) (x # a) b = x # merge ks a b"
| "merge (False # ks) a (y # b) = y # merge ks a b"
| "merge ks a b = []"

definition partial_trace :: "complex list list \<Rightarrow> nat list \<Rightarrow> bool list \<Rightarrow> complex list list" where
  "partial_trace rho dims keep =
     (let da = select keep dims; db = select (map Not keep) dims
      in map (\<lambda>j. map (\<lambda>a. sum_list
                (map (\<lambda>b. rho ! ravel_multi_index (merge keep j b) dims
                              ! ravel_multi_index (merge keep a b) dims)
                   (ndindex db)))
              (ndindex da))
           (ndindex da))"

definition matvec :: "complex list list \<Rightarrow> complex list \<Rightarrow> complex list" where
  "matvec m v = map (\<lambda>row. sum_list (map2 (*) row v)) m"

text \<open>
  The partial transpose of an operator on the kept subsystems, with respect to the marked
  ones: the entry at row \<open>r\<close> and column \<open>c\<close> is the entry of the operator whose row
  takes the marked indices of \<open>c\<close> and the other indices of \<open>r\<close>, and whose column takes
  the marked indices of \<open>r\<close> and the other indices of \<open>c\<close>.
\<close>

fun mix :: "bool list \<Rightarrow> 'a list \<Rightarrow> 'a list \<Rightarrow> 'a list" where
  "mix (k # ks) (x # xs) (y # ys) = (if k then x else y) # mix ks xs ys"
| "mix ks xs ys = []"

definition partial_transpose ::
  "complex list list \<Rightarrow> nat list \<Rightarrow> bool list \<Rightarrow> complex list list" where
  "partial_transpose rho dims ta =
     map (\<lambda>r. map (\<lambda>c. rho ! ravel_multi_index (mix ta c r) dims
                          ! ravel_multi_index (mix ta r c) dims)
              (ndindex dims))
       (ndindex dims)"

section \<open>Floating-point values\<close>

text \<open>
  A float is a real number or NaN (\<open>None\<close>); a complex float is a complex number or NaN.
  Finite values are computed exactly.  NaN is absorbing for every operation used here, as
  in IEEE arithmetic.  A division by zero gives \<open>None\<close>: IEEE gives NaN for \<open>0 / 0\<close> and
  an infinity otherwise, and numpy raises nothing.  In the Lanczos iteration every divisor
  is the norm of its dividend, so that with exact finite values a zero divisor means a
  zero dividend and only \<open>0 / 0\<close> occurs.
\<close>

type_synonym fl = "real option"
type_synonym cfl = "complex option"

definition lift2 :: "('a \<Rightarrow> 'b \<Rightarrow> 'c) \<Rightarrow> 'a option \<Rightarrow> 'b option \<Rightarrow> 'c option" where
  "lift2 f x y = (case x of None \<Rightarrow> None | Some a \<Rightarrow> (case y of None \<Rightarrow> None | Some b \<Rightarrow> Some (f a b)))"

definition c_add :: "cfl \<Rightarrow> cfl \<Rightarrow> cfl" where "c_add = lift2 (+)"
definition c_sub :: "cfl \<Rightarrow> cfl \<Rightarrow> cfl" where "c_sub = lift2 (-)"
definition c_mul :: "cfl \<Rightarrow> cfl \<Rightarrow> cfl" where "c_mul = lift2 (*)"

definition c_scale :: "fl \<Rightarrow> cfl \<Rightarrow> cfl" where
  "c_scale = lift2 (\<lambda>b z. of_real b * z)"

definition c_div :: "cfl \<Rightarrow> fl \<Rightarrow> cfl" where
  "c_div z b =
     (case z of None \<Rightarrow> None
      | Some z' \<Rightarrow> (case b of None \<Rightarrow> None
                    | Some b' \<Rightarrow> if b' = 0 then None else Some (z' / of_real b')))"

definition c_real :: "cfl \<Rightarrow> fl" where
  "c_real z = map_option Re z"

definition c_sum :: "cfl list \<Rightarrow> cfl" where
  "c_sum zs = foldl c_add (Some 0) zs"

text \<open>\<^verbatim>\<open>math.sqrt\<close>: NaN gives NaN, a negative number raises.\<close>

definition py_sqrt :: "fl \<Rightarrow> error + fl" where
  "py_sqrt x =
     (case x of None \<Rightarrow> Inr None
      | Some r \<Rightarrow> if r < 0 then Inl MathDomainError else Inr (Some (sqrt r)))"

text \<open>
  One-dimensional numpy arrays of complex floats.  Two arrays combine elementwise when
  their lengths agree or one of them has length 1; an in-place operation and a slice
  assignment need the right-hand side to broadcast to the target.
\<close>

type_synonym cvec = "cfl list"

definition broadcast2 :: "(cfl \<Rightarrow> cfl \<Rightarrow> cfl) \<Rightarrow> cvec \<Rightarrow> cvec \<Rightarrow> error + cvec" where
  "broadcast2 f x y =
     (if length x = length y then Inr (map2 f x y)
      else if length x = 1 then Inr (map (f (hd x)) y)
      else if length y = 1 then Inr (map (\<lambda>a. f a (hd y)) x)
      else Inl BroadcastError)"

definition broadcast_to :: "nat \<Rightarrow> 'a list \<Rightarrow> error + 'a list" where
  "broadcast_to n x =
     (if length x = n then Inr x
      else if length x = 1 then Inr (replicate n (hd x))
      else Inl BroadcastError)"

definition inplace_sub :: "cvec \<Rightarrow> cvec \<Rightarrow> error + cvec" where
  "inplace_sub x y =
     (case broadcast_to (length x) y of Inl e \<Rightarrow> Inl e | Inr y' \<Rightarrow> Inr (map2 c_sub x y'))"

definition np_vdot :: "cvec \<Rightarrow> cvec \<Rightarrow> error + cfl" where
  "np_vdot x y =
     (if length x = length y then Inr (c_sum (map2 (\<lambda>a b. c_mul (map_option cnj a) b) x y))
      else Inl VdotSizeError)"

section \<open>The Lanczos functions (\<^verbatim>\<open>approx_linalg.py\<close>)\<close>

text \<open>
  The operator \<open>A\<close>: its \<^verbatim>\<open>shape[0]\<close> and its method \<^verbatim>\<open>dot\<close>, which may raise.  (A
  \<^verbatim>\<open>numpy.matrix\<close> is first converted with \<^verbatim>\<open>asarray\<close>, which changes neither.)
\<close>

record linop =
  lin_shape0 :: nat
  lin_dot :: "cvec \<Rightarrow> error + cvec"

text \<open>
  What the functions read and change outside their arguments: the position in the stream
  of samples of numpy's global random generator, and the number of calls of \<^verbatim>\<open>A.dot\<close>
  made so far.  \<^verbatim>\<open>np.random.randn(d)\<close> takes the next \<open>d\<close> samples of the stream.
\<close>

record world =
  rng_pos :: nat
  dot_calls :: nat

definition randn :: "(nat \<Rightarrow> real) \<Rightarrow> nat \<Rightarrow> world \<Rightarrow> real list \<times> world" where
  "randn stream d w =
     (map (\<lambda>i. stream (rng_pos w + i)) [0..<d], w\<lparr>rng_pos := rng_pos w + d\<rparr>)"

text \<open>
  The arrays of \<^verbatim>\<open>construct_lanczos_tridiag\<close>: \<open>alpha\<close> (\<open>M + 1\<close> floats), \<open>beta\<close>
  (\<open>M + 2\<close> floats) and the columns of \<open>vk\<close> (\<open>M + 2\<close> vectors of length \<open>d\<close>).
\<close>

record lanczos_state =
  alpha :: "fl list"
  beta :: "fl list"
  vk :: "cvec list"
  wld :: world

text \<open>
  One pass through the body of the loop, for the index \<open>k\<close>.  All indices read and
  written are within the arrays, since \<open>1 \<le> k \<le> M\<close>.
\<close>

definition lanczos_step :: "linop \<Rightarrow> nat \<Rightarrow> lanczos_state \<Rightarrow> error + lanczos_state" where
  "lanczos_step A k s =
     (case lin_dot A (vk s ! k) of
        Inl e \<Rightarrow> Inl e
      | Inr Av \<Rightarrow>
          (case broadcast2 c_sub Av (map (c_scale (beta s ! k)) (vk s ! (k - 1))) of
             Inl e \<Rightarrow> Inl e
           | Inr wk \<Rightarrow>
               (case np_vdot wk (vk s ! k) of
                  Inl e \<Rightarrow> Inl e
                | Inr x \<Rightarrow>
                    (let alpha' = (alpha s)[k := c_real x]
                     in case inplace_sub wk (map (c_scale (alpha' ! k)) (vk s ! k)) of
                          Inl e \<Rightarrow> Inl e
                        | Inr wk' \<Rightarrow>
                            (case np_vdot wk' wk' of
                               Inl e \<Rightarrow> Inl e
                             | Inr y \<Rightarrow>
                                 (case py_sqrt (c_real y) of
                                    Inl e \<Rightarrow> Inl e
                                  | Inr b \<Rightarrow>
                                      (let beta' = (beta s)[k + 1 := b]
                                       in case broadcast_to (lin_shape0 A)
                                                 (map (\<lambda>z. c_div z (beta' ! (k + 1))) wk') of
                                            Inl e \<Rightarrow> Inl e
                                          | Inr col \<Rightarrow>
                                              Inr \<lparr>alpha = alpha', beta = beta',
                                                   vk = (vk s)[k + 1 := col],
                                                   wld = (wld s)\<lparr>dot_calls :=
                                                           dot_calls (wld s) + 1\<rparr>\<rparr>)))))))"

fun lanczos_loop :: "linop \<Rightarrow> nat list \<Rightarrow> lanczos_state \<Rightarrow> error + lanczos_state" where
  "lanczos_loop A [] s = Inr s"
| "lanczos_loop A (k # ks) s =
     (case lanczos_step A k s of Inl e \<Rightarrow> Inl e | Inr s' \<Rightarrow> lanczos_loop A ks s')"

text \<open>
  The starting column \<open>vk[:, 1]\<close> before it is normalised: two draws of \<open>d\<close> samples when
  \<open>v0\<close> is \<^verbatim>\<open>None\<close>, else \<open>v0\<close> broadcast to length \<open>d\<close>.
\<close>

definition start_vector ::
  "(nat \<Rightarrow> real) \<Rightarrow> nat \<Rightarrow> complex list option \<Rightarrow> world \<Rightarrow> error + (cvec \<times> world)" where
  "start_vector stream d v0 w =
     (case v0 of
        None \<Rightarrow>
          (let (r1, w1) = randn stream d w;
               (r2, w2) = randn stream d w1
           in Inr (map2 c_add (map (\<lambda>x. Some (of_real x)) r1)
                     (map (\<lambda>x. c_mul (Some \<i>) (Some (of_real x))) r2), w2))
      | Some v \<Rightarrow>
          (case broadcast_to d (map Some v) of Inl e \<Rightarrow> Inl e | Inr col \<Rightarrow> Inr (col, w)))"

text \<open>
  \<^verbatim>\<open>construct_lanczos_tridiag(A, v0=None, M=20)\<close>.  \<open>junk\<close> is what \<^verbatim>\<open>np.empty\<close> leaves
  in the cells of \<open>vk\<close>.  The result is \<^verbatim>\<open>(alpha[1:], beta[2:-1])\<close> and the world after
  the call.
\<close>

definition construct_lanczos_tridiag ::
  "(nat \<Rightarrow> real) \<Rightarrow> cfl \<Rightarrow> linop \<Rightarrow> complex list option \<Rightarrow> nat \<Rightarrow> world
   \<Rightarrow> error + ((fl list \<times> fl list) \<times> world)" where
  "construct_lanczos_tridiag stream junk A v0 M w =
     (let d = lin_shape0 A;
          alpha0 = replicate (M + 1) (Some 0);
          beta0 = replicate (M + 2) (Some 0);
          vk0 = (replicate (M + 2) (replicate d junk))[0 := replicate d (Some 0)]
      in case start_vector stream d v0 w of
           Inl e \<Rightarrow> Inl e
         | Inr (col, w1) \<Rightarrow>
             (case np_vdot col col of
                Inl e \<Rightarrow> Inl e
              | Inr x \<Rightarrow>
                  (case py_sqrt (c_real x) of
                     Inl e \<Rightarrow> Inl e
                   | Inr nrm \<Rightarrow>
                       (case lanczos_loop A [1..<M + 1]
                               \<lparr>alpha = alpha0, beta = beta0,
                                vk = vk0[1 := map (\<lambda>z. c_div z nrm) col], wld = w1\<rparr> of
                          Inl e \<Rightarrow> Inl e
                        | Inr s \<Rightarrow> Inr ((drop 1 (alpha s), butlast (drop 2 (beta s))), wld s)))))"

text \<open>
  \<^verbatim>\<open>scipy.linalg.eig_banded(a_band, lower=True)\<close> is not part of the repository.  It
  gets the two rows of the banded matrix.  It first checks them (\<^verbatim>\<open>check_finite\<close> is
  \<^verbatim>\<open>True\<close> by default) and raises \<^verbatim>\<open>ValueError\<close> when a cell is a NaN or an infinity;
  then it hands them to the LAPACK routine, taken as the parameter \<open>lapack\<close>, which
  returns the eigenvalues and the matrix of eigenvectors (as the list of its rows), or
  raises.
\<close>

type_synonym eig_solver = "fl list list \<Rightarrow> error + (fl list \<times> fl list list)"

definition eig_banded :: "eig_solver \<Rightarrow> fl list list \<Rightarrow> error + (fl list \<times> fl list list)" where
  "eig_banded lapack a_band =
     (if list_ex (\<lambda>row. None \<in> set row) a_band then Inl NonFiniteError else lapack a_band)"

text \<open>
  \<^verbatim>\<open>lanczos_tridiag_eig(alpha, beta)\<close>.  The last cell of the second row of
  \<^verbatim>\<open>Tk_banded\<close> is not assigned: it holds what \<^verbatim>\<open>np.empty\<close> left there (\<open>junk\<close>).
\<close>

definition lanczos_tridiag_eig ::
  "eig_solver \<Rightarrow> fl \<Rightarrow> fl list \<Rightarrow> fl list \<Rightarrow> error + (fl list \<times> fl list list)" where
  "lanczos_tridiag_eig lapack junk al be =
     (case broadcast_to (length al - 1) be of
        Inl e \<Rightarrow> Inl e
      | Inr row \<Rightarrow> eig_banded lapack [al, row @ (if al = [] then [] else [junk])])"

text \<open>
  \<^verbatim>\<open>approx_spectral_function(A, fn, M=20, R=10, v0=None)\<close>.  The generator
  \<^verbatim>\<open>gen_vals\<close> is consumed by \<^verbatim>\<open>sum\<close>, which starts from 0 and adds the terms in order:
  \<open>eig_terms\<close> adds the terms of one restart, \<open>gen_vals\<close> runs the restarts.
\<close>

fun eig_terms :: "(fl \<Rightarrow> cfl) \<Rightarrow> fl list \<Rightarrow> fl list list \<Rightarrow> nat list \<Rightarrow> cfl \<Rightarrow> error + cfl" where
  "eig_terms fn el ev [] acc = Inr acc"
| "eig_terms fn el ev (i # is) acc =
     (if i < length el \<and> 0 < length ev \<and> i < length (ev ! 0) then
        eig_terms fn el ev is
          (c_add acc (c_mul (fn (el ! i))
             (map_option of_real (lift2 (*) (ev ! 0 ! i) (ev ! 0 ! i)))))
      else Inl IndexError)"

fun gen_vals ::
  "(nat \<Rightarrow> real) \<Rightarrow> cfl \<Rightarrow> fl \<Rightarrow> eig_solver \<Rightarrow> linop \<Rightarrow> (fl \<Rightarrow> cfl) \<Rightarrow> nat
   \<Rightarrow> complex list option \<Rightarrow> nat \<Rightarrow> cfl \<Rightarrow> world \<Rightarrow> error + (cfl \<times> world)" where
  "gen_vals stream junk junk' lapack A fn M v0 0 acc w = Inr (acc, w)"
| "gen_vals stream junk junk' lapack A fn M v0 (Suc r) acc w =
     (case construct_lanczos_tridiag stream junk A v0 M w of
        Inl e \<Rightarrow> Inl e
      | Inr ((al, be), w') \<Rightarrow>
          (case lanczos_tridiag_eig lapack junk' al be of
             Inl e \<Rightarrow> Inl e
           | Inr (el, ev) \<Rightarrow>
               (case eig_terms fn el ev [0..<M] acc of
                  Inl e \<Rightarrow> Inl e
                | Inr acc' \<Rightarrow> gen_vals stream junk junk' lapack A fn M v0 r acc' w')))"

definition approx_spectral_function ::
  "(nat \<Rightarrow> real) \<Rightarrow> cfl \<Rightarrow> fl \<Rightarrow> eig_solver \<Rightarrow> linop \<Rightarrow> (fl \<Rightarrow> cfl) \<Rightarrow> nat \<Rightarrow> nat
   \<Rightarrow> complex list option \<Rightarrow> world \<Rightarrow> error + (cfl \<times> world)" where
  "approx_spectral_function stream junk junk' lapack A fn M R v0 w =
     (case gen_vals stream junk junk' lapack A fn M v0 R (Some 0) w of
        Inl e \<Rightarrow> Inl e
      | Inr (acc, w') \<Rightarrow>
          if R = 0 then Inl ZeroDivisionError
          else Inr (c_mul acc (Some (of_real (real (lin_shape0 A) / real R))), w'))"

section \<open>The Lanczos recurrence and the quadrature sum, as the spec states them\<close>

text \<open>
  The recurrence for an operator given by its action \<open>Af\<close> on vectors, written from the
  words of the spec: \<open>v\<^sub>0 = 0\<close>, \<open>beta\<^sub>1 = 0\<close>, \<open>v\<^sub>1\<close> the unit-normalised start vector, and
  for every \<open>k\<close>: \<open>w = Af v\<^sub>k - beta\<^sub>k v\<^sub>k\<^sub>-\<^sub>1\<close>, \<open>alpha\<^sub>k = Re \<langle>w, v\<^sub>k\<rangle>\<close>,
  \<open>w' = w - alpha\<^sub>k v\<^sub>k\<close>, \<open>beta\<^sub>k\<^sub>+\<^sub>1 = sqrt (Re \<langle>w', w'\<rangle>)\<close>, \<open>v\<^sub>k\<^sub>+\<^sub>1 = w' / beta\<^sub>k\<^sub>+\<^sub>1\<close>.
  \<open>krylov Af v1 n\<close> is the triple \<open>(v\<^sub>n, v\<^sub>n\<^sub>+\<^sub>1, beta\<^sub>n\<^sub>+\<^sub>1)\<close>.
\<close>

definition re_inner :: "cvec \<Rightarrow> cvec \<Rightarrow> fl" where
  "re_inner w v = c_real (c_sum (map2 (\<lambda>a b. c_mul (map_option cnj a) b) w v))"

definition unit_normalized :: "cvec \<Rightarrow> cvec" where
  "unit_normalized v = map (\<lambda>z. c_div z (map_option sqrt (re_inner v v))) v"

fun krylov :: "(cvec \<Rightarrow> cvec) \<Rightarrow> cvec \<Rightarrow> nat \<Rightarrow> cvec \<times> cvec \<times> fl" where
  "krylov Af v1 0 = (replicate (length v1) (Some 0), v1, Some 0)"
| "krylov Af v1 (Suc n) =
     (case krylov Af v1 n of
        (vp, v, b) \<Rightarrow>
          (let w = map2 c_sub (Af v) (map (c_scale b) vp);
               a = re_inner w v;
               w' = map2 c_sub w (map (c_scale a) v);
               b' = map_option sqrt (re_inner w' w')
           in (v, map (\<lambda>z. c_div z b') w', b')))"

definition rec_alpha :: "(cvec \<Rightarrow> cvec) \<Rightarrow> cvec \<Rightarrow> nat \<Rightarrow> fl" where
  "rec_alpha Af v1 k =
     (case krylov Af v1 (k - 1) of
        (vp, v, b) \<Rightarrow> re_inner (map2 c_sub (Af v) (map (c_scale b) vp)) v)"

definition rec_beta :: "(cvec \<Rightarrow> cvec) \<Rightarrow> cvec \<Rightarrow> nat \<Rightarrow> fl" where
  "rec_beta Af v1 k = snd (snd (krylov Af v1 (k - 1)))"

text \<open>
  The random start vector: its real parts are the next \<open>d\<close> samples of the generator
  and its imaginary parts the \<open>d\<close> samples after them.
\<close>

definition random_start :: "(nat \<Rightarrow> real) \<Rightarrow> nat \<Rightarrow> world \<Rightarrow> cvec" where
  "random_start stream d w =
     map (\<lambda>i. Some (Complex (stream (rng_pos w + i)) (stream (rng_pos w + d + i)))) [0..<d]"

text \<open>
  The operators the claims are about: \<open>A\<close> has dimension \<open>d\<close>, and \<^verbatim>\<open>A.dot\<close> returns,
  for a vector of length \<open>d\<close>, the vector \<open>Af v\<close> of length \<open>d\<close> and raises nothing.
\<close>

definition acts_as :: "linop \<Rightarrow> (cvec \<Rightarrow> cvec) \<Rightarrow> bool" where
  "acts_as A Af =
     (\<forall>v. length v = lin_shape0 A \<longrightarrow> lin_dot A v = Inr (Af v) \<and> length (Af v) = lin_shape0 A)"

text \<open>
  The \<open>R\<close> restarts of the estimator.  Restart \<open>r\<close> (counted from 0) starts from the
  unit-normalised \<open>v0\<close> when it is given, and otherwise from the unit-normalised random
  vector drawn after the \<open>2 * d * r\<close> samples that the restarts before it have taken.  Its
  tridiagonal matrix has the diagonal \<open>alpha\<^sub>1 .. alpha\<^sub>M\<close> and the subdiagonal
  \<open>beta\<^sub>2 .. beta\<^sub>M\<close> of the recurrence; in the banded form handed to the eigensolver the
  subdiagonal is followed by one more cell.  The terms of one restart are
  \<open>fn (eigenvalue\<^sub>i)\<close> times the squared magnitude of the first component of
  eigenvector \<open>i\<close>.
\<close>

definition restart_vector ::
  "(nat \<Rightarrow> real) \<Rightarrow> nat \<Rightarrow> complex list option \<Rightarrow> world \<Rightarrow> nat \<Rightarrow> cvec" where
  "restart_vector stream d v0 w r =
     unit_normalized
       (case v0 of
          Some v \<Rightarrow> map Some v
        | None \<Rightarrow> random_start stream d (w\<lparr>rng_pos := rng_pos w + 2 * d * r\<rparr>))"

definition tridiagonal_band :: "(cvec \<Rightarrow> cvec) \<Rightarrow> cvec \<Rightarrow> nat \<Rightarrow> fl \<Rightarrow> fl list list" where
  "tridiagonal_band Af v1 M junk =
     [map (rec_alpha Af v1) [1..<M + 1], map (rec_beta Af v1) [2..<M + 1] @ [junk]]"

definition quadrature_terms :: "(fl \<Rightarrow> cfl) \<Rightarrow> nat \<Rightarrow> fl list \<times> fl list list \<Rightarrow> cfl list" where
  "quadrature_terms fn M p =
     (case p of (el, ev) \<Rightarrow>
        map (\<lambda>i. c_mul (fn (el ! i)) (map_option (\<lambda>x. of_real (\<bar>x\<bar> ^ 2)) (ev ! 0 ! i))) [0..<M])"

definition has_eigenpairs :: "nat \<Rightarrow> fl list \<times> fl list list \<Rightarrow> bool" where
  "has_eigenpairs M p = (case p of (el, ev) \<Rightarrow> M \<le> length el \<and> ev \<noteq> [] \<and> M \<le> length (ev ! 0))"

text \<open>The state of the loop after \<open>n\<close> passes.\<close>

definition loop_inv ::
  "(cvec \<Rightarrow> cvec) \<Rightarrow> cvec \<Rightarrow> nat \<Rightarrow> world \<Rightarrow> nat \<Rightarrow> lanczos_state \<Rightarrow> bool" where
  "loop_inv Af v1 M w n s =
     (length (alpha s) = M + 1 \<and> length (beta s) = M + 2 \<and> length (vk s) = M + 2 \<and>
      (\<forall>i. 1 \<le> i \<and> i \<le> n \<longrightarrow> alpha s ! i = rec_alpha Af v1 i) \<and>
      (\<forall>i. 1 \<le> i \<and> i \<le> n + 1 \<longrightarrow> beta s ! i = rec_beta Af v1 i) \<and>
      vk s ! n = fst (krylov Af v1 n) \<and> vk s ! (n + 1) = fst (snd (krylov Af v1 n)) \<and>
      wld s = w\<lparr>dot_calls := dot_calls w + n\<rparr>)"

section \<open>Properties of the builder\<close>

text \<open>
  Claim C10.  \<^verbatim>\<open>add_term\<close> with three or more operators raises
  \<^verbatim>\<open>NotImplementedError\<close> and leaves the builder as it was (neither term list changes);
  with exactly one operator the term \<^verbatim>\<open>(factor, *operators)\<close> is appended to
  \<^verbatim>\<open>one_site_terms\<close>, with exactly two to \<^verbatim>\<open>two_site_terms\<close>, the other list and
  \<^verbatim>\<open>S\<close> stay, and nothing is raised.
\<close>

theorem add_term_arity:
  "(3 \<le> length operators \<longrightarrow>
      add_term self factor operators = (Inl NotImplementedError, self)) \<and>
   (length operators = 1 \<longrightarrow>
      add_term self factor operators =
        (Inr (), self\<lparr>one_site_terms := one_site_terms self @ [(factor, operators)]\<rparr>)) \<and>
   (length operators = 2 \<longrightarrow>
      add_term self factor operators =
        (Inr (), self\<lparr>two_site_terms := two_site_terms self @ [(factor, operators)]\<rparr>))"
  by (simp add: add_term_def)

theorem add_term_arity_witness:
  "add_term (MPOSpinHam_init (1 / 2)) 1 [OpStr ''X'', OpStr ''Y'', OpStr ''Z'']
     = (Inl NotImplementedError, MPOSpinHam_init (1 / 2)) \<and>
   add_term (MPOSpinHam_init (1 / 2)) 1 [OpStr ''Z'']
     = (Inr (), \<lparr>S = 1 / 2, one_site_terms = [(1, [OpStr ''Z''])], two_site_terms = []\<rparr>) \<and>
   add_term (MPOSpinHam_init (1 / 2)) 1 [OpStr ''Z'', OpStr ''Z'']
     = (Inr (), \<lparr>S = 1 / 2, one_site_terms = [],
          two_site_terms = [(1, [OpStr ''Z'', OpStr ''Z''])]\<rparr>)"
  using add_term_arity [of "[OpStr ''X'', OpStr ''Y'', OpStr ''Z'']" "MPOSpinHam_init (1 / 2)" 1]
    add_term_arity [of "[OpStr ''Z'']" "MPOSpinHam_init (1 / 2)" 1]
    add_term_arity [of "[OpStr ''Z'', OpStr ''Z'']" "MPOSpinHam_init (1 / 2)" 1]
  by (simp add: MPOSpinHam_init_def)

section \<open>Properties of the index planners\<close>

lemma fresh_of_Cons_keep:
  "P i \<Longrightarrow> j \<noteq> i \<Longrightarrow> fresh_of P (i # js) (u # us) j = fresh_of P js us j"
  "P i \<Longrightarrow> fresh_of P (i # js) (u # us) i = u"
  "\<not> P i \<Longrightarrow> fresh_of P (i # js) ups j = fresh_of P js ups j"
  by (simp_all add: fresh_of_def)

lemma fresh_of_not: "\<not> P i \<Longrightarrow> fresh_of P js ups i = i"
proof -
  assume "\<not> P i"
  then have "map_of (zip (filter P js) ups) i = None"
    by (auto simp: map_of_eq_None_iff dest: set_zip_leftD)
  then show ?thesis by (simp add: fresh_of_def)
qed

lemma ptr_dot_loop_closed:
  "distinct js \<Longrightarrow> length (filter (\<lambda>i. i \<in> set sysa) js) \<le> length ups \<Longrightarrow>
   ptr_dot_loop js sysa ups (a, b, k) =
     Inr (a @ filter (\<lambda>i. i \<in> set sysa) js, b @ js,
          k @ map (fresh_of (\<lambda>i. i \<in> set sysa) js ups) js)"
proof (induction js arbitrary: ups a b k)
  case Nil
  then show ?case by simp
next
  case (Cons i js)
  show ?case
  proof (cases "i \<in> set sysa")
    case True
    with Cons.prems obtain u us where ups: "ups = u # us" by (cases ups) auto
    have "map (fresh_of (\<lambda>i. i \<in> set sysa) (i # js) (u # us)) js
          = map (fresh_of (\<lambda>i. i \<in> set sysa) js us) js"
    proof (intro map_cong refl)
      fix j assume "j \<in> set js"
      with Cons.prems(1) have "j \<noteq> i" by auto
      with True show "fresh_of (\<lambda>i. i \<in> set sysa) (i # js) (u # us) j
          = fresh_of (\<lambda>i. i \<in> set sysa) js us j"
        by (simp add: fresh_of_Cons_keep)
    qed
    with Cons True ups show ?thesis by (simp add: fresh_of_Cons_keep)
  next
    case False
    with Cons show ?thesis by (simp add: fresh_of_Cons_keep fresh_of_not)
  qed
qed

lemma ptr_ppt_dot_loop_closed:
  "distinct js \<Longrightarrow> length (filter (\<lambda>i. i \<in> set sysa \<or> i \<in> set sysb) js) \<le> length ups \<Longrightarrow>
   ptr_ppt_dot_loop js sysa sysb ups (ab, b, k, out) =
     Inr (ab @ map (\<lambda>i. if i \<in> set sysa then i
                         else fresh_of (\<lambda>i. i \<in> set sysa \<or> i \<in> set sysb) js ups i)
                 (filter (\<lambda>i. i \<in> set sysa \<or> i \<in> set sysb) js),
          b @ map (fresh_of (\<lambda>i. i \<in> set sysa \<or> i \<in> set sysb) js ups) js,
          k @ js,
          out @ map (\<lambda>i. if i \<in> set sysa
                         then fresh_of (\<lambda>i. i \<in> set sysa \<or> i \<in> set sysb) js ups i else i)
                 (filter (\<lambda>i. i \<in> set sysa \<or> i \<in> set sysb) js))"
proof (induction js arbitrary: ups ab b k out)
  case Nil
  then show ?case by simp
next
  case (Cons i js)
  let ?P = "\<lambda>i. i \<in> set sysa \<or> i \<in> set sysb"
  show ?case
  proof (cases "?P i")
    case True
    with Cons.prems obtain u us where ups: "ups = u # us" by (cases ups) auto
    have eq: "fresh_of ?P (i # js) (u # us) j = fresh_of ?P js us j" if "j \<in> set js" for j
    proof -
      from that Cons.prems(1) have "j \<noteq> i" by auto
      with True show ?thesis by (simp add: fresh_of_Cons_keep)
    qed
    have m1: "map (fresh_of ?P (i # js) (u # us)) js = map (fresh_of ?P js us) js"
      using eq by (intro map_cong) auto
    have m2: "map (\<lambda>i'. if i' \<in> set sysa then i' else fresh_of ?P (i # js) (u # us) i') (filter ?P js)
      = map (\<lambda>i'. if i' \<in> set sysa then i' else fresh_of ?P js us i') (filter ?P js)"
      using eq by (intro map_cong) auto
    have m3: "map (\<lambda>i'. if i' \<in> set sysa then fresh_of ?P (i # js) (u # us) i' else i') (filter ?P js)
      = map (\<lambda>i'. if i' \<in> set sysa then fresh_of ?P js us i' else i') (filter ?P js)"
      using eq by (intro map_cong) auto
    have fi: "fresh_of ?P (i # js) (u # us) i = u"
      using True by (simp add: fresh_of_Cons_keep)
    from Cons.prems True ups have len: "length (filter ?P js) \<le> length us" by auto
    from Cons.prems have d: "distinct js" by simp
    show ?thesis
      using True ups Cons.IH[OF d len] m1 m2 m3 fi by auto
  next
    case False
    with Cons show ?thesis by (simp add: fresh_of_Cons_keep fresh_of_not)
  qed
qed

lemma map_of_zip_take:
  "distinct xs \<Longrightarrow> length xs \<le> length ys \<Longrightarrow>
   map (\<lambda>x. case map_of (zip xs ys) x of Some u \<Rightarrow> u | None \<Rightarrow> x) xs = take (length xs) ys"
proof (induction xs arbitrary: ys)
  case Nil
  then show ?case by simp
next
  case (Cons x xs)
  then obtain y ys' where ys: "ys = y # ys'" by (cases ys) auto
  have "map (\<lambda>z. case map_of (zip (x # xs) (y # ys')) z of Some u \<Rightarrow> u | None \<Rightarrow> z) xs
        = map (\<lambda>z. case map_of (zip xs ys') z of Some u \<Rightarrow> u | None \<Rightarrow> z) xs"
    using Cons.prems(1) by (intro map_cong refl) auto
  with Cons ys show ?case by simp
qed

lemma fresh_of_kept:
  "distinct js \<Longrightarrow> length (filter P js) \<le> length ups \<Longrightarrow>
   map (fresh_of P js ups) (filter P js) = take (length (filter P js)) ups"
  using map_of_zip_take [of "filter P js" ups] by (simp add: fresh_of_def [abs_def])

lemma fresh_of_mset:
  assumes "distinct js" "length (filter P js) \<le> length ups"
  shows "mset (map (fresh_of P js ups) js)
         = mset (take (length (filter P js)) ups) + mset (filter (\<lambda>i. \<not> P i) js)"
proof -
  have "mset (map (fresh_of P js ups) js)
        = mset (map (fresh_of P js ups) (filter P js))
          + mset (map (fresh_of P js ups) (filter (\<lambda>i. \<not> P i) js))"
    by (metis mset_map image_mset_union mset_filter multiset_partition)
  moreover have "map (fresh_of P js ups) (filter (\<lambda>i. \<not> P i) js) = filter (\<lambda>i. \<not> P i) js"
    by (rule map_idI) (simp add: fresh_of_not)
  ultimately show ?thesis using fresh_of_kept [OF assms] by simp
qed

lemma count_list_distinct:
  "distinct xs \<Longrightarrow> count_list xs x = (if x \<in> set xs then 1 else 0)"
  by (induction xs) auto

lemma ptr_dot_counts:
  assumes d: "distinct js" "distinct ups" "set js \<inter> set ups = {}"
    and len: "length (filter P js) \<le> length ups"
  shows "count_list (filter P js @ js @ map (fresh_of P js ups) js) l =
     (if l \<in> set js then 2 else if l \<in> set (take (length (filter P js)) ups) then 1 else 0)"
proof -
  let ?U = "take (length (filter P js)) ups"
  have U: "distinct ?U" "set ?U \<subseteq> set ups"
    using d by (auto dest: in_set_takeD)
  have "count_list (map (fresh_of P js ups) js) l
        = count_list ?U l + count_list (filter (\<lambda>i. \<not> P i) js) l"
    using fresh_of_mset [OF d(1) len] by (metis count_mset plus_multiset.rep_eq)
  then show ?thesis
    using d U by (auto simp: count_list_distinct)
qed

lemma count_list_map_if:
  "count_list (map (\<lambda>i. if A i then g i else h i) xs) l
   = count_list (map g (filter A xs)) l + count_list (map h (filter (\<lambda>i. \<not> A i) xs)) l"
  by (induction xs) auto

lemma count_list_map_split:
  "count_list (map g xs) l
   = count_list (map g (filter A xs)) l + count_list (map g (filter (\<lambda>i. \<not> A i) xs)) l"
  by (induction xs) auto

lemma ptr_ppt_dot_counts:
  assumes d: "distinct js" "distinct ups" "set js \<inter> set ups = {}"
    and len: "length (filter P js) \<le> length ups"
    and l: "l \<in> set js \<or> l \<in> set (take (length (filter P js)) ups)"
  shows
    "(count_list (map (\<lambda>i. if A i then i else fresh_of P js ups i) (filter P js)
                  @ map (fresh_of P js ups) js @ js) l = 2 \<and>
      count_list (map (\<lambda>i. if A i then fresh_of P js ups i else i) (filter P js)) l = 0) \<or>
     (count_list (map (\<lambda>i. if A i then i else fresh_of P js ups i) (filter P js)
                  @ map (fresh_of P js ups) js @ js) l = 1 \<and>
      count_list (map (\<lambda>i. if A i then fresh_of P js ups i else i) (filter P js)) l = 1)"
proof -
  let ?f = "fresh_of P js ups" and ?K = "filter P js"
  let ?U = "take (length ?K) ups"
  let ?KA = "filter A ?K" and ?KB = "filter (\<lambda>i. \<not> A i) ?K"
  have U: "distinct ?U" "set ?U \<subseteq> set ups"
    using d by (auto dest: in_set_takeD)
  have bra: "count_list (map ?f js) l = count_list ?U l + count_list (filter (\<lambda>i. \<not> P i) js) l"
    using fresh_of_mset [OF d(1) len] by (metis count_mset plus_multiset.rep_eq)
  have sum: "count_list (map ?f ?KA) l + count_list (map ?f ?KB) l = count_list ?U l"
    using count_list_map_split [of ?f ?K l A] fresh_of_kept [OF d(1) len] by simp
  have ab: "count_list (map (\<lambda>i. if A i then i else ?f i) ?K) l
            = count_list ?KA l + count_list (map ?f ?KB) l"
    using count_list_map_if [of A "\<lambda>i. i" ?f ?K l] by simp
  have out: "count_list (map (\<lambda>i. if A i then ?f i else i) ?K) l
            = count_list (map ?f ?KA) l + count_list ?KB l"
    using count_list_map_if [of A ?f "\<lambda>i. i" ?K l] by simp
  have dK: "distinct ?KA" "distinct ?KB" using d by auto
  show ?thesis
  proof (cases "l \<in> set js")
    case True
    then have "l \<notin> set ?U" using d U by auto
    then have "count_list ?U l = 0" by (simp add: count_list_distinct U)
    with sum have z: "count_list (map ?f ?KA) l = 0" "count_list (map ?f ?KB) l = 0" by auto
    show ?thesis
      using True d dK \<open>count_list ?U l = 0\<close>
      by (simp only: count_list_append ab out bra z) (auto simp: count_list_distinct)
  next
    case False
    with l have lU: "l \<in> set ?U" by simp
    then have c1: "count_list ?U l = 1" by (simp add: count_list_distinct U)
    have z: "count_list ?KA l = 0" "count_list ?KB l = 0" "count_list js l = 0"
      "count_list (filter (\<lambda>i. \<not> P i) js) l = 0"
      using False by (auto simp: count_list_0_iff)
    from sum c1 have "count_list (map ?f ?KA) l = 1 \<and> count_list (map ?f ?KB) l = 0
        \<or> count_list (map ?f ?KA) l = 0 \<and> count_list (map ?f ?KB) l = 1" by arith
    then show ?thesis
      by (simp only: count_list_append ab out bra z c1) auto
  qed
qed

lemma py_range_facts:
  "distinct (py_range a b)" "set (py_range a b) = {a..<b}"
  "length (py_range a b) = nat (b - a)"
  by (auto simp: py_range_def)

lemma py_range_nth: "0 \<le> i \<Longrightarrow> i < n \<Longrightarrow> py_range 0 n ! nat i = i"
  by (simp add: py_range_def)

lemma planner_pre:
  "length (filter P (py_range 0 n)) \<le> length (py_range n (2 * n))"
  "set (py_range 0 n) \<inter> set (py_range n (2 * n)) = {}"
proof -
  have "length (filter P (py_range 0 n)) \<le> length (py_range 0 n)" by (rule length_filter_le)
  then show "length (filter P (py_range 0 n)) \<le> length (py_range n (2 * n))"
    by (simp add: py_range_facts)
  show "set (py_range 0 n) \<inter> set (py_range n (2 * n)) = {}"
    by (auto simp: py_range_facts)
qed

lemma fresh_of_range:
  assumes "P i" "i \<in> set (py_range 0 n)"
  shows "n \<le> fresh_of P (py_range 0 n) (py_range n (2 * n)) i \<and>
         fresh_of P (py_range 0 n) (py_range n (2 * n)) i < 2 * n"
proof -
  let ?js = "py_range 0 n" and ?ups = "py_range n (2 * n)"
  from assms have "fresh_of P ?js ?ups i \<in> set (map (fresh_of P ?js ?ups) (filter P ?js))"
    by simp
  then have "fresh_of P ?js ?ups i \<in> set (take (length (filter P ?js)) ?ups)"
    using fresh_of_kept [OF py_range_facts(1) [of 0 n] planner_pre(1) [of P n]] by simp
  then have "fresh_of P ?js ?ups i \<in> set ?ups" by (rule in_set_takeD)
  then show ?thesis by (simp add: py_range_facts)
qed

text \<open>
  Claim C7.  For every \<open>ndim\<close> and every subset(s), both planners return a plan (the
  iterator of fresh labels is never exhausted).  In the plan of
  \<^verbatim>\<open>get_cntrct_inds_ptr_dot\<close> every label occurs exactly twice across the three input
  sequences (then it is a base index \<open>0 \<le> l < ndim\<close>) or exactly once (then it is a fresh
  label \<open>ndim \<le> l < 2 * ndim\<close>, bound at a kept position of the ket).  In the plan of
  \<^verbatim>\<open>get_cntrct_inds_ptr_ppt_dot\<close> every label occurs exactly twice across the inputs, or
  once in an input and once in \<^verbatim>\<open>inds_out\<close>; \<^verbatim>\<open>inds_out\<close> lists, for the kept positions
  in ascending order, the fresh label (the one bound in the bra at that position) at a
  \<^verbatim>\<open>sysa\<close> position and the original index at a \<^verbatim>\<open>sysb\<close> position; it has
  \<open>|sysa| + |sysb|\<close> entries when the subsets are valid (duplicate-free, disjoint, in
  range); and every fresh label lies in \<open>ndim .. 2 * ndim - 1\<close>, so none is a base index.
\<close>

theorem planner_labels:
  "(\<exists>a bra ket.
      get_cntrct_inds_ptr_dot ndim sysa = Inr (a, bra, ket) \<and>
      (\<forall>l \<in> set (a @ bra @ ket).
         count_list (a @ bra @ ket) l = 2 \<or> count_list (a @ bra @ ket) l = 1) \<and>
      (\<forall>l. count_list (a @ bra @ ket) l = 2 \<longrightarrow> 0 \<le> l \<and> l < ndim) \<and>
      (\<forall>l. count_list (a @ bra @ ket) l = 1 \<longrightarrow> ndim \<le> l \<and> l < 2 * ndim) \<and>
      a = filter (\<lambda>i. i \<in> set sysa) (py_range 0 ndim) \<and>
      (\<forall>i \<in> set a. ndim \<le> ket ! nat i \<and> ket ! nat i < 2 * ndim)) \<and>
   (\<exists>ab bra ket out.
      get_cntrct_inds_ptr_ppt_dot ndim sysa sysb = Inr (ab, bra, ket, out) \<and>
      (\<forall>l \<in> set (ab @ bra @ ket @ out).
         (count_list (ab @ bra @ ket) l = 2 \<and> count_list out l = 0) \<or>
         (count_list (ab @ bra @ ket) l = 1 \<and> count_list out l = 1)) \<and>
      out = map (\<lambda>i. if i \<in> set sysa then bra ! nat i else i)
              (filter (\<lambda>i. i \<in> set sysa \<or> i \<in> set sysb) (py_range 0 ndim)) \<and>
      (\<forall>i \<in> set (filter (\<lambda>i. i \<in> set sysa \<or> i \<in> set sysb) (py_range 0 ndim)).
         ndim \<le> bra ! nat i \<and> bra ! nat i < 2 * ndim) \<and>
      (distinct sysa \<and> distinct sysb \<and> set sysa \<inter> set sysb = {} \<and>
       (\<forall>i \<in> set sysa \<union> set sysb. 0 \<le> i \<and> i < ndim)
         \<longrightarrow> length out = length sysa + length sysb))"
proof (rule conjI)
  let ?js = "py_range 0 ndim" and ?ups = "py_range ndim (2 * ndim)"
  let ?P = "\<lambda>i. i \<in> set sysa"
  let ?f = "fresh_of ?P ?js ?ups"
  let ?all = "filter ?P ?js @ ?js @ map ?f ?js"
  have run: "get_cntrct_inds_ptr_dot ndim sysa = Inr (filter ?P ?js, ?js, map ?f ?js)"
    unfolding get_cntrct_inds_ptr_dot_def
    using ptr_dot_loop_closed [OF py_range_facts(1) [of 0 ndim] planner_pre(1) [of ?P ndim],
        where a = "[]" and b = "[]" and k = "[]"]
    by simp
  have cnt: "count_list ?all l =
      (if l \<in> set ?js then 2 else if l \<in> set (take (length (filter ?P ?js)) ?ups) then 1 else 0)"
    for l
    by (rule ptr_dot_counts [OF py_range_facts(1) py_range_facts(1) planner_pre(2) planner_pre(1)])
  have up: "l \<in> set (take (length (filter ?P ?js)) ?ups) \<Longrightarrow> ndim \<le> l \<and> l < 2 * ndim" for l
    by (drule in_set_takeD) (simp add: py_range_facts)
  have c1: "\<forall>l \<in> set ?all. count_list ?all l = 2 \<or> count_list ?all l = 1"
  proof
    fix l assume "l \<in> set ?all"
    then have "count_list ?all l \<noteq> 0" by (simp only: count_list_0_iff) simp
    then show "count_list ?all l = 2 \<or> count_list ?all l = 1"
      by (simp only: cnt split: if_splits) simp_all
  qed
  have c2: "\<forall>l. count_list ?all l = 2 \<longrightarrow> 0 \<le> l \<and> l < ndim"
    by (simp only: cnt) (auto simp: py_range_facts split: if_splits)
  have c3: "\<forall>l. count_list ?all l = 1 \<longrightarrow> ndim \<le> l \<and> l < 2 * ndim"
    using up by (simp only: cnt) (auto split: if_splits)
  have c4: "\<forall>i \<in> set (filter ?P ?js). ndim \<le> map ?f ?js ! nat i \<and> map ?f ?js ! nat i < 2 * ndim"
  proof
    fix i assume i: "i \<in> set (filter ?P ?js)"
    then have r: "0 \<le> i" "i < ndim" by (auto simp: py_range_facts)
    then have "map ?f ?js ! nat i = ?f i"
      by (simp add: py_range_facts py_range_nth)
    with fresh_of_range [of ?P i ndim] i show "ndim \<le> map ?f ?js ! nat i \<and> map ?f ?js ! nat i < 2 * ndim"
      by simp
  qed
  show "\<exists>a bra ket.
      get_cntrct_inds_ptr_dot ndim sysa = Inr (a, bra, ket) \<and>
      (\<forall>l \<in> set (a @ bra @ ket).
         count_list (a @ bra @ ket) l = 2 \<or> count_list (a @ bra @ ket) l = 1) \<and>
      (\<forall>l. count_list (a @ bra @ ket) l = 2 \<longrightarrow> 0 \<le> l \<and> l < ndim) \<and>
      (\<forall>l. count_list (a @ bra @ ket) l = 1 \<longrightarrow> ndim \<le> l \<and> l < 2 * ndim) \<and>
      a = filter (\<lambda>i. i \<in> set sysa) (py_range 0 ndim) \<and>
      (\<forall>i \<in> set a. ndim \<le> ket ! nat i \<and> ket ! nat i < 2 * ndim)"
    apply (rule exI [where x = "filter ?P ?js"])
    apply (rule exI [where x = "?js"])
    apply (rule exI [where x = "map ?f ?js"])
    apply (rule conjI, rule run)
    apply (rule conjI, rule c1)
    apply (rule conjI, rule c2)
    apply (rule conjI, rule c3)
    apply (rule conjI, rule refl)
    apply (rule c4)
    done
next
  let ?js = "py_range 0 ndim" and ?ups = "py_range ndim (2 * ndim)"
  let ?P = "\<lambda>i. i \<in> set sysa \<or> i \<in> set sysb"
  let ?A = "\<lambda>i. i \<in> set sysa"
  let ?f = "fresh_of ?P ?js ?ups"
  let ?K = "filter ?P ?js"
  let ?ab = "map (\<lambda>i. if ?A i then i else ?f i) ?K"
  let ?out = "map (\<lambda>i. if ?A i then ?f i else i) ?K"
  let ?bra = "map ?f ?js"
  have run: "get_cntrct_inds_ptr_ppt_dot ndim sysa sysb = Inr (?ab, ?bra, ?js, ?out)"
    unfolding get_cntrct_inds_ptr_ppt_dot_def
    using ptr_ppt_dot_loop_closed [OF py_range_facts(1) [of 0 ndim] planner_pre(1) [of ?P ndim],
        where ab = "[]" and b = "[]" and k = "[]" and out = "[]"]
    by simp
  have nth: "?bra ! nat i = ?f i" if "i \<in> set ?js" for i
    using that by (simp add: py_range_facts py_range_nth)
  have c1: "\<forall>l \<in> set (?ab @ ?bra @ ?js @ ?out).
         (count_list (?ab @ ?bra @ ?js) l = 2 \<and> count_list ?out l = 0) \<or>
         (count_list (?ab @ ?bra @ ?js) l = 1 \<and> count_list ?out l = 1)"
  proof
    fix l assume l: "l \<in> set (?ab @ ?bra @ ?js @ ?out)"
    have "set (map ?f ?K) = set (take (length ?K) ?ups)"
      using fresh_of_kept [OF py_range_facts(1) [of 0 ndim] planner_pre(1) [of ?P ndim]] by simp
    moreover have "set_mset (mset ?bra)
        = set_mset (mset (take (length ?K) ?ups) + mset (filter (\<lambda>i. \<not> ?P i) ?js))"
      by (simp only: fresh_of_mset [OF py_range_facts(1) [of 0 ndim] planner_pre(1) [of ?P ndim]])
    then have "set ?bra \<subseteq> set ?js \<union> set (take (length ?K) ?ups)"
      by (simp only: set_mset_mset set_mset_union) auto
    moreover have "set ?ab \<subseteq> set ?js \<union> set (map ?f ?K)"
      and "set ?out \<subseteq> set ?js \<union> set (map ?f ?K)" by auto
    ultimately have "l \<in> set ?js \<or> l \<in> set (take (length ?K) ?ups)"
      using l by (simp only: set_append) blast
    then show "(count_list (?ab @ ?bra @ ?js) l = 2 \<and> count_list ?out l = 0) \<or>
         (count_list (?ab @ ?bra @ ?js) l = 1 \<and> count_list ?out l = 1)"
      by (rule ptr_ppt_dot_counts [OF py_range_facts(1) py_range_facts(1) planner_pre(2)
            planner_pre(1)])
  qed
  have c2: "?out = map (\<lambda>i. if i \<in> set sysa then ?bra ! nat i else i) ?K"
    by (intro map_cong refl) (simp add: nth)
  have c3: "\<forall>i \<in> set ?K. ndim \<le> ?bra ! nat i \<and> ?bra ! nat i < 2 * ndim"
  proof
    fix i assume i: "i \<in> set ?K"
    then have "?bra ! nat i = ?f i" by (simp add: nth)
    with fresh_of_range [of ?P i ndim] i show "ndim \<le> ?bra ! nat i \<and> ?bra ! nat i < 2 * ndim"
      by simp
  qed
  have c4: "distinct sysa \<and> distinct sysb \<and> set sysa \<inter> set sysb = {} \<and>
       (\<forall>i \<in> set sysa \<union> set sysb. 0 \<le> i \<and> i < ndim)
         \<longrightarrow> length ?out = length sysa + length sysb"
  proof
    assume v: "distinct sysa \<and> distinct sysb \<and> set sysa \<inter> set sysb = {} \<and>
       (\<forall>i \<in> set sysa \<union> set sysb. 0 \<le> i \<and> i < ndim)"
    have "distinct ?K" by (simp add: py_range_facts)
    moreover have "set ?K = set sysa \<union> set sysb" using v by (auto simp: py_range_facts)
    ultimately have "length ?K = card (set sysa \<union> set sysb)" by (metis distinct_card)
    also have "\<dots> = card (set sysa) + card (set sysb)"
      using v by (simp add: card_Un_disjoint)
    also have "\<dots> = length sysa + length sysb" using v by (simp add: distinct_card)
    finally show "length ?out = length sysa + length sysb" by simp
  qed
  show "\<exists>ab bra ket out.
      get_cntrct_inds_ptr_ppt_dot ndim sysa sysb = Inr (ab, bra, ket, out) \<and>
      (\<forall>l \<in> set (ab @ bra @ ket @ out).
         (count_list (ab @ bra @ ket) l = 2 \<and> count_list out l = 0) \<or>
         (count_list (ab @ bra @ ket) l = 1 \<and> count_list out l = 1)) \<and>
      out = map (\<lambda>i. if i \<in> set sysa then bra ! nat i else i)
              (filter (\<lambda>i. i \<in> set sysa \<or> i \<in> set sysb) (py_range 0 ndim)) \<and>
      (\<forall>i \<in> set (filter (\<lambda>i. i \<in> set sysa \<or> i \<in> set sysb) (py_range 0 ndim)).
         ndim \<le> bra ! nat i \<and> bra ! nat i < 2 * ndim) \<and>
      (distinct sysa \<and> distinct sysb \<and> set sysa \<inter> set sysb = {} \<and>
       (\<forall>i \<in> set sysa \<union> set sysb. 0 \<le> i \<and> i < ndim)
         \<longrightarrow> length out = length sysa + length sysb)"
    apply (rule exI [where x = "?ab"])
    apply (rule exI [where x = "?bra"])
    apply (rule exI [where x = "?js"])
    apply (rule exI [where x = "?out"])
    apply (rule conjI, rule run)
    apply (rule conjI, rule c1)
    apply (rule conjI, rule c2)
    apply (rule conjI, rule c3)
    apply (rule c4)
    done
qed

lemma py_range_rec: "py_range a b = (if a < b then a # py_range (a + 1) b else [])"
  unfolding py_range_def by (subst upto.simps) simp

theorem planner_labels_witness:
  "get_cntrct_inds_ptr_dot 3 [2] = Inr ([2], [0, 1, 2], [0, 1, 3]) \<and>
   count_list ([2] @ [0, 1, 2] @ [0, 1, 3 :: int]) 2 = 2 \<and>
   count_list ([2] @ [0, 1, 2] @ [0, 1, 3 :: int]) 3 = 1 \<and>
   get_cntrct_inds_ptr_ppt_dot 3 [2] [0] = Inr ([3, 2], [3, 1, 4], [0, 1, 2], [0, 4]) \<and>
   count_list ([3, 2] @ [3, 1, 4] @ [0, 1, 2 :: int]) 3 = 2 \<and> count_list [0, 4 :: int] 3 = 0 \<and>
   count_list ([3, 2] @ [3, 1, 4] @ [0, 1, 2 :: int]) 4 = 1 \<and> count_list [0, 4 :: int] 4 = 1 \<and>
   distinct [2 :: int] \<and> distinct [0 :: int] \<and> set [2 :: int] \<inter> set [0] = {} \<and>
   length [0 :: int, 4] = length [2 :: int] + length [0 :: int]"
proof -
  have e1: "get_cntrct_inds_ptr_dot 3 [2] = Inr ([2], [0, 1, 2], [0, 1, 3])"
    by (simp add: get_cntrct_inds_ptr_dot_def py_range_rec)
  have e2: "get_cntrct_inds_ptr_ppt_dot 3 [2] [0] = Inr ([3, 2], [3, 1, 4], [0, 1, 2], [0, 4])"
    by (simp add: get_cntrct_inds_ptr_ppt_dot_def py_range_rec)
  have c: "get_cntrct_inds_ptr_dot 3 [2] = Inr ([2], [0, 1, 2], [0, 1, 3]) \<and>
   count_list ([2] @ [0, 1, 2] @ [0, 1, 3 :: int]) 2 = 2 \<and>
   count_list ([2] @ [0, 1, 2] @ [0, 1, 3 :: int]) 3 = 1 \<and>
   get_cntrct_inds_ptr_ppt_dot 3 [2] [0] = Inr ([3, 2], [3, 1, 4], [0, 1, 2], [0, 4]) \<and>
   count_list ([3, 2] @ [3, 1, 4] @ [0, 1, 2 :: int]) 3 = 2 \<and> count_list [0, 4 :: int] 3 = 0 \<and>
   count_list ([3, 2] @ [3, 1, 4] @ [0, 1, 2 :: int]) 4 = 1 \<and> count_list [0, 4 :: int] 4 = 1 \<and>
   distinct [2 :: int] \<and> distinct [0 :: int] \<and> set [2 :: int] \<inter> set [0] = {} \<and>
   length [0 :: int, 4] = length [2 :: int] + length [0 :: int]"
    by (simp add: e1 e2)
  from planner_labels [of 3 "[2]" "[0]"] c show ?thesis
    by - assumption
qed

section \<open>Properties of the contraction functions\<close>

lemma py_range_nat: "py_range 0 (int n) = map int [0..<n]"
proof (rule nth_equalityI)
  show "length (py_range 0 (int n)) = length (map int [0..<n])"
    by (simp add: py_range_def)
next
  fix i assume "i < length (py_range 0 (int n))"
  then have "i < n" by (simp add: py_range_def)
  then show "py_range 0 (int n) ! i = map int [0..<n] ! i"
    by (simp add: py_range_def)
qed

lemma select_map: "select ks (map g xs) = map g (select ks xs)"
  by (induction ks xs rule: select.induct) auto

lemma filter_select: "filter P xs = select (map P xs) xs"
  by (induction xs) auto

lemma map_filter_select: "map g (filter P xs) = select (map P xs) (map g xs)"
  by (simp add: filter_select select_map)

lemma enumerate_select:
  "map snd (filter (\<lambda>(i, d). Q i) (enumerate n xs)) = select (map Q [n..<n + length xs]) xs"
proof (induction xs arbitrary: n)
  case Nil
  then show ?case by simp
next
  case (Cons x xs)
  have "[n..<n + length (x # xs)] = n # [Suc n..<Suc n + length xs]"
    by (simp add: upt_rec)
  with Cons [of "Suc n"] show ?case by simp
qed

lemma dims_of_select: "dims_of dims sys = select (keep_mask (length dims) sys) dims"
  unfolding dims_of_def keep_mask_def
  using enumerate_select [of "\<lambda>i. int i \<in> set sys" 0 dims] by simp

lemma map_merge:
  "map g xs = merge (map P xs) (map g (filter P xs)) (map g (filter (\<lambda>x. \<not> P x) xs))"
  by (induction xs) auto

lemma length_select_filter: "length ks = length xs \<Longrightarrow> length (select ks xs) = length (filter id ks)"
  by (induction ks xs rule: list_induct2) auto

lemma select_merge:
  "length a = length (filter id ks) \<Longrightarrow> length b = length (filter Not ks) \<Longrightarrow>
   select ks (merge ks a b) = a \<and> select (map Not ks) (merge ks a b) = b
   \<and> length (merge ks a b) = length ks"
proof (induction ks arbitrary: a b)
  case Nil
  then show ?case by simp
next
  case (Cons k ks)
  show ?case
  proof (cases k)
    case True
    with Cons.prems obtain x a' where "a = x # a'" by (cases a) auto
    with True Cons.IH [of a' b] Cons.prems show ?thesis by simp
  next
    case False
    with Cons.prems obtain y b' where "b = y # b'" by (cases b) auto
    with False Cons.IH [of a b'] Cons.prems show ?thesis by simp
  qed
qed

lemma set_ndindex: "set (ndindex ds) = {idx. list_all2 (<) idx ds}"
proof (induction ds)
  case Nil
  then show ?case by simp
next
  case (Cons d ds)
  show ?case
  proof (rule set_eqI)
    fix idx
    show "idx \<in> set (ndindex (d # ds)) \<longleftrightarrow> idx \<in> {idx. list_all2 (<) idx (d # ds)}"
      using Cons by (cases idx) (auto simp: list_all2_Cons2)
  qed
qed

lemma ravel_bound: "list_all2 (<) idx ds \<Longrightarrow> ravel_multi_index idx ds < prod_list ds"
proof (induction idx ds rule: list_all2_induct)
  case Nil
  then show ?case by simp
next
  case (Cons i idx d ds)
  have "i * prod_list ds + ravel_multi_index idx ds < i * prod_list ds + prod_list ds"
    using Cons by simp
  also have "\<dots> = (i + 1) * prod_list ds" by simp
  also have "\<dots> \<le> d * prod_list ds" using Cons by (intro mult_le_mono1) simp
  finally show ?case by simp
qed

lemma ravel_ndindex: "map (\<lambda>idx. ravel_multi_index idx ds) (ndindex ds) = [0..<prod_list ds]"
proof (induction ds)
  case Nil
  then show ?case by simp
next
  case (Cons d ds)
  let ?p = "prod_list ds"
  have step: "concat (map (\<lambda>i. map (\<lambda>r. i * ?p + r) [0..<?p]) [0..<k]) = [0..<k * ?p]" for k
  proof (induction k)
    case 0
    then show ?case by simp
  next
    case (Suc k)
    have m: "map (\<lambda>r. k * ?p + r) [0..<?p] = [k * ?p..<k * ?p + ?p]"
      by (simp add: map_add_upt add.commute)
    have a: "[0..<k * ?p + ?p] = [0..<k * ?p] @ [k * ?p..<k * ?p + ?p]"
      by (rule upt_add_eq_append) simp
    have "concat (map (\<lambda>i. map (\<lambda>r. i * ?p + r) [0..<?p]) [0..<Suc k])
          = concat (map (\<lambda>i. map (\<lambda>r. i * ?p + r) [0..<?p]) [0..<k])
            @ map (\<lambda>r. k * ?p + r) [0..<?p]"
      by simp
    also have "\<dots> = [0..<k * ?p + ?p]" by (simp only: Suc m a)
    also have "k * ?p + ?p = Suc k * ?p" by simp
    finally show ?case .
  qed
  have "map (\<lambda>idx. ravel_multi_index idx (d # ds)) (ndindex (d # ds))
        = concat (map (\<lambda>i. map (\<lambda>idx. i * ?p + ravel_multi_index idx ds) (ndindex ds)) [0..<d])"
    by (simp add: map_concat comp_def)
  also have "\<dots> = concat (map (\<lambda>i. map (\<lambda>r. i * ?p + r) [0..<?p]) [0..<d])"
  proof -
    have "map (\<lambda>idx. i * ?p + ravel_multi_index idx ds) (ndindex ds)
          = map (\<lambda>r. i * ?p + r) [0..<?p]" for i
      using arg_cong [OF Cons, of "map (\<lambda>r. i * ?p + r)"] by (simp add: comp_def)
    then show ?thesis by simp
  qed
  also have "\<dots> = [0..<prod_list (d # ds)]" using step [of d] by simp
  finally show ?case .
qed

lemma sum_list_swap:
  fixes f :: "'a \<Rightarrow> 'b \<Rightarrow> 'c :: comm_monoid_add"
  shows "sum_list (map (\<lambda>x. sum_list (map (f x) ys)) xs)
         = sum_list (map (\<lambda>y. sum_list (map (\<lambda>x. f x y) xs)) ys)"
  by (induction xs) (simp_all add: sum_list_addf)

lemma sum_list_concat_map:
  fixes xss :: "'c :: comm_monoid_add list list"
  shows "sum_list (concat xss) = sum_list (map sum_list xss)"
  by (induction xss) simp_all

lemma sum_ndindex_Cons:
  fixes F :: "nat list \<Rightarrow> 'c :: comm_monoid_add"
  shows "sum_list (map F (ndindex (d # ds)))
         = sum_list (map (\<lambda>i. sum_list (map (\<lambda>s. F (i # s)) (ndindex ds))) [0..<d])"
  by (simp add: map_concat sum_list_concat_map comp_def)

lemma sum_ndindex_split:
  fixes F :: "nat list \<Rightarrow> 'c :: comm_monoid_add"
  assumes "length ks = length ds"
  shows "sum_list (map F (ndindex ds))
         = sum_list (map (\<lambda>a. sum_list (map (\<lambda>b. F (merge ks a b))
                                        (ndindex (select (map Not ks) ds))))
                      (ndindex (select ks ds)))"
  using assms
proof (induction ks ds arbitrary: F rule: list_induct2)
  case Nil
  then show ?case by simp
next
  case (Cons k ks d ds)
  let ?da = "select ks ds" and ?db = "select (map Not ks) ds"
  have IH: "sum_list (map (\<lambda>s. F (i # s)) (ndindex ds))
        = sum_list (map (\<lambda>a. sum_list (map (\<lambda>b. F (i # merge ks a b)) (ndindex ?db)))
             (ndindex ?da))" for i
    using Cons.IH [of "\<lambda>s. F (i # s)"] .
  show ?case
  proof (cases k)
    case True
    then show ?thesis
      by (simp only: sum_ndindex_Cons IH select.simps list.map if_True simp_thms if_False
          merge.simps)
  next
    case False
    have "sum_list (map F (ndindex (d # ds)))
          = sum_list (map (\<lambda>i. sum_list (map (\<lambda>a. sum_list
               (map (\<lambda>b. F (i # merge ks a b)) (ndindex ?db))) (ndindex ?da))) [0..<d])"
      by (simp only: sum_ndindex_Cons IH)
    also have "\<dots> = sum_list (map (\<lambda>a. sum_list (map (\<lambda>i. sum_list
               (map (\<lambda>b. F (i # merge ks a b)) (ndindex ?db))) [0..<d])) (ndindex ?da))"
      by (rule sum_list_swap)
    also have "\<dots> = sum_list (map (\<lambda>a. sum_list (map (\<lambda>b. F (merge (k # ks) a b))
                  (ndindex (select (map Not (k # ks)) (d # ds))))) (ndindex (select (k # ks) (d # ds))))"
    proof -
      from False have k: "k = False" by simp
      show ?thesis unfolding k
        by (simp only: select.simps list.map not_False_eq_True if_True if_False
            sum_ndindex_Cons merge.simps simp_thms)
    qed
    finally show ?thesis .
  qed
qed

lemma merge_in_range:
  assumes "length ks = length ds"
    and "list_all2 (<) a (select ks ds)" and "list_all2 (<) b (select (map Not ks) ds)"
  shows "list_all2 (<) (merge ks a b) (ds :: nat list)"
  using assms
proof (induction ks ds arbitrary: a b rule: list_induct2)
  case Nil
  then show ?case by simp
next
  case (Cons k ks d ds)
  show ?case
  proof (cases k)
    case True
    with Cons.prems obtain x a' where "a = x # a'" "x < d" "list_all2 (<) a' (select ks ds)"
      by (auto simp: list_all2_Cons2)
    with True Cons.IH [of a' b] Cons.prems show ?thesis by simp
  next
    case False
    with Cons.prems obtain y b' where "b = y # b'" "y < d" "list_all2 (<) b' (select (map Not ks) ds)"
      by (auto simp: list_all2_Cons2)
    with False Cons.IH [of a b'] Cons.prems show ?thesis by simp
  qed
qed

lemma assign_map:
  "distinct ls \<Longrightarrow> length ls = length idx \<Longrightarrow> map (assign ls idx) ls = idx"
proof (induction ls idx rule: list_induct2')
  case (4 l ls i idx)
  have "assign (l # ls) (i # idx) x = assign ls idx x" if "x \<in> set ls" for x
    using that 4(2) by (auto simp: assign_def)
  then have m: "map (assign (l # ls) (i # idx)) ls = map (assign ls idx) ls"
    by (intro map_cong refl)
  have h: "assign (l # ls) (i # idx) l = i" by (simp add: assign_def)
  have IH: "map (assign ls idx) ls = idx" using 4 by simp
  show ?case by (simp only: list.map m h IH)
qed simp_all

lemma assign_append:
  assumes "distinct (ls @ ms)" "length ls = length xs" "length ms = length ys"
  shows "map (assign (ls @ ms) (xs @ ys)) ls = xs" "map (assign (ls @ ms) (xs @ ys)) ms = ys"
proof -
  have "map (assign (ls @ ms) (xs @ ys)) (ls @ ms) = xs @ ys"
    using assms by (intro assign_map) simp_all
  then have "map (assign (ls @ ms) (xs @ ys)) ls @ map (assign (ls @ ms) (xs @ ys)) ms = xs @ ys"
    by simp
  then show "map (assign (ls @ ms) (xs @ ys)) ls = xs" "map (assign (ls @ ms) (xs @ ys)) ms = ys"
    using assms by (simp_all add: append_eq_append_conv)
qed

lemma map2_same:
  "map2 f (map g xs) (map h xs) = map (\<lambda>x. f (g x) (h x)) xs"
  by (induction xs) auto

lemma matvec_row:
  assumes "length v = prod_list da"
  shows "sum_list (map2 (*) (map g (ndindex da)) v)
         = sum_list (map (\<lambda>a. g a * v ! ravel_multi_index a da) (ndindex da))"
proof -
  have "v = map ((!) v) [0..<prod_list da]" using assms by (metis map_nth)
  also have "\<dots> = map (\<lambda>a. v ! ravel_multi_index a da) (ndindex da)"
    by (simp only: ravel_ndindex [symmetric] map_map comp_def)
  finally have "map2 (*) (map g (ndindex da)) v
      = map2 (*) (map g (ndindex da)) (map (\<lambda>a. v ! ravel_multi_index a da) (ndindex da))"
    by simp
  also have "\<dots> = map (\<lambda>a. g a * v ! ravel_multi_index a da) (ndindex da)"
    by (rule map2_same)
  finally show ?thesis by simp
qed

lemma select_zip:
  "length xs = length ys \<Longrightarrow> zip (select ks xs) (select ks ys) = select ks (zip xs ys)"
proof (induction ks xs arbitrary: ys rule: select.induct)
  case (1 k ks x xs)
  then obtain y ys' where "ys = y # ys'" by (cases ys) auto
  with 1 show ?case by simp
qed simp_all

lemma set_select: "set (select ks xs) \<subseteq> set xs"
  by (induction ks xs rule: select.induct) auto

lemma merge_select:
  "length ks = length xs \<Longrightarrow> merge ks (select ks xs) (select (map Not ks) xs) = xs"
  by (induction ks xs rule: list_induct2) auto

lemma set_zip_merge:
  "set (zip (merge ks a b) (merge ks a' b')) \<subseteq> set (zip a a') \<union> set (zip b b')"
proof (induction ks arbitrary: a b a' b')
  case Nil
  then show ?case by simp
next
  case (Cons k ks)
  show ?case
  proof (cases k)
    case True
    show ?thesis
    proof (cases a)
      case Nil
      with True show ?thesis by simp
    next
      case (Cons x xs)
      note a = this
      show ?thesis
      proof (cases a')
        case Nil
        with True a show ?thesis by simp
      next
        case (Cons x' xs')
        with True a Cons.IH [of xs b xs' b'] show ?thesis by auto
      qed
    qed
  next
    case False
    show ?thesis
    proof (cases b)
      case Nil
      with False show ?thesis by simp
    next
      case (Cons y ys)
      note b = this
      show ?thesis
      proof (cases b')
        case Nil
        with False b show ?thesis by simp
      next
        case (Cons y' ys')
        with False b Cons.IH [of a ys a' ys'] show ?thesis by auto
      qed
    qed
  qed
qed

lemma map_of_functional:
  assumes "distinct (map fst C)" "set axs \<subseteq> set C" "(l, d) \<in> set axs"
  shows "map_of axs l = Some d" "map_of C l = Some d"
proof -
  from assms show c: "map_of C l = Some d" by (auto intro: map_of_is_SomeI)
  from assms(3) have "l \<in> fst ` set axs" by force
  then obtain d' where d': "map_of axs l = Some d'"
    by (cases "map_of axs l") (auto simp: map_of_eq_None_iff)
  then have "(l, d') \<in> set axs" by (rule map_of_SomeD)
  with assms have "map_of C l = Some d'" by (auto intro: map_of_is_SomeI)
  with c d' show "map_of axs l = Some d" by simp
qed

text \<open>The labels and axis sizes of the three operands of a trace+dot contraction.\<close>

lemma fresh_of_merge:
  assumes "distinct js" "length (filter P js) \<le> length ups"
  shows "map (fresh_of P js ups) js
         = merge (map P js) (take (length (filter P js)) ups) (filter (\<lambda>i. \<not> P i) js)"
proof -
  have "map (fresh_of P js ups) (filter (\<lambda>i. \<not> P i) js) = filter (\<lambda>i. \<not> P i) js"
    by (rule map_idI) (simp add: fresh_of_not)
  with map_merge [of "fresh_of P js ups" js P] fresh_of_kept [OF assms] show ?thesis by simp
qed

lemma ptr_dot_axes:
  fixes A B B' :: ndarray
  assumes js: "distinct js" and ups: "distinct ups" and dis: "set js \<inter> set ups = {}"
    and len: "length (filter P js) \<le> length ups" and n: "length js = length dims"
    and A: "shape A = select (map P js) dims" and B: "shape B = dims" and B': "shape B' = dims"
    and ops: "ops = [(A, filter P js), (B', js), (B, map (fresh_of P js ups) js)]"
    and U: "U = take (length (filter P js)) ups"
  shows "set (axis_sizes ops) \<subseteq> set (zip (U @ js) (select (map P js) dims @ dims))"
    and "distinct (U @ js)"
    and "length U = length (select (map P js) dims)"
proof -
  let ?mask = "map P js"
  let ?da = "select ?mask dims" and ?db = "select (map Not ?mask) dims"
  let ?Kc = "filter (\<lambda>i. \<not> P i) js"
  have lenU: "length U = length (filter P js)" using U len by simp
  have lda: "length ?da = length (filter P js)"
    using length_select_filter [of ?mask dims] n by (simp add: filter_map comp_def)
  show lU: "length U = length ?da" using lenU lda by simp
  have z: "zip (U @ js) (?da @ dims) = zip U ?da @ zip js dims"
    using lU by simp
  have 1: "set (zip (filter P js) ?da) \<subseteq> set (zip js dims)"
    using select_zip [of js dims ?mask] n set_select [of ?mask "zip js dims"]
    by (simp add: filter_select)
  have Kc: "?Kc = select (map Not ?mask) js"
    using filter_select [of "\<lambda>i. \<not> P i" js] by (simp add: comp_def)
  have "set (zip ?Kc ?db) \<subseteq> set (zip js dims)"
    using select_zip [of js dims "map Not ?mask"] n set_select [of "map Not ?mask" "zip js dims"]
    by (simp add: Kc)
  moreover have "set (zip (map (fresh_of P js ups) js) dims)
      \<subseteq> set (zip U ?da) \<union> set (zip ?Kc ?db)"
    using set_zip_merge [of ?mask U ?Kc ?da ?db] fresh_of_merge [OF js len]
      merge_select [of ?mask dims] n U by simp
  ultimately have 3: "set (zip (map (fresh_of P js ups) js) dims)
      \<subseteq> set (zip U ?da) \<union> set (zip js dims)" by blast
  show "set (axis_sizes ops) \<subseteq> set (zip (U @ js) (?da @ dims))"
    using 1 3 by (simp add: axis_sizes_def ops A B B' z) blast
  show "distinct (U @ js)"
    using js ups dis U by (auto dest: in_set_takeD)
qed

lemma map_merge_distrib: "map g (merge ks a b) = merge ks (map g a) (map g b)"
  by (induction ks a b rule: merge.induct) auto

lemma ndindex_length: "idx \<in> set (ndindex ds) \<Longrightarrow> length idx = length ds"
  by (auto simp: set_ndindex dest: list_all2_lengthD)

lemma outer_nth:
  "r < length psi \<Longrightarrow> c < length psi \<Longrightarrow> outer psi ! r ! c = psi ! r * cnj (psi ! c)"
  by (simp add: outer_def)

lemma sort_eq_sorted_distinct:
  fixes xs ys :: "int list"
  assumes "sorted ys" "distinct ys" "distinct xs" "set xs = set ys"
  shows "sort xs = ys"
  by (rule sorted_distinct_set_unique) (use assms in simp_all)

text \<open>The contraction of a trace+dot plan, summand by summand.\<close>

lemma ptr_dot_summand:
  assumes n: "length ks = length dims"
    and oi: "oi \<in> set (ndindex (select ks dims))"
    and v: "length v = prod_list (select ks dims)" and psi: "length psi = prod_list dims"
  shows "sum_list (map (\<lambda>si. v ! ravel_multi_index (select ks si) (select ks dims)
                     * (cnj (psi ! ravel_multi_index si dims)
                        * (psi ! ravel_multi_index (merge ks oi (select (map Not ks) si)) dims
                           * 1)))
                  (ndindex dims))
         = sum_list (map2 (*)
             (map (\<lambda>a. sum_list
                (map (\<lambda>b. outer psi ! ravel_multi_index (merge ks oi b) dims
                              ! ravel_multi_index (merge ks a b) dims)
                   (ndindex (select (map Not ks) dims))))
              (ndindex (select ks dims))) v)"
proof -
  let ?da = "select ks dims" and ?db = "select (map Not ks) dims"
  let ?G = "\<lambda>si. v ! ravel_multi_index (select ks si) ?da
                     * (cnj (psi ! ravel_multi_index si dims)
                        * (psi ! ravel_multi_index (merge ks oi (select (map Not ks) si)) dims
                           * 1))"
  have lda: "length ?da = length (filter id ks)"
    using length_select_filter [OF n] .
  have ldb: "length ?db = length (filter Not ks)"
    using length_select_filter [of "map Not ks" dims] n by (simp add: filter_map comp_def)
  have inner: "sum_list (map (\<lambda>b. ?G (merge ks a b)) (ndindex ?db))
      = sum_list (map (\<lambda>b. outer psi ! ravel_multi_index (merge ks oi b) dims
                              ! ravel_multi_index (merge ks a b) dims) (ndindex ?db))
        * v ! ravel_multi_index a ?da"
    if a: "a \<in> set (ndindex ?da)" for a
  proof -
    have "?G (merge ks a b) = outer psi ! ravel_multi_index (merge ks oi b) dims
                              ! ravel_multi_index (merge ks a b) dims
                              * v ! ravel_multi_index a ?da"
      if b: "b \<in> set (ndindex ?db)" for b
    proof -
      have la: "length a = length (filter id ks)" "length oi = length (filter id ks)"
        and lb: "length b = length (filter Not ks)"
        using a b oi lda ldb by (simp_all add: ndindex_length)
      have sa: "select ks (merge ks a b) = a" "select (map Not ks) (merge ks a b) = b"
        using select_merge [OF la(1) lb] by simp_all
      have "ravel_multi_index (merge ks oi b) dims < length psi"
        "ravel_multi_index (merge ks a b) dims < length psi"
        using a b oi n psi by (auto simp: set_ndindex intro!: ravel_bound merge_in_range)
      then show ?thesis by (simp add: sa outer_nth)
    qed
    then have "map (\<lambda>b. ?G (merge ks a b)) (ndindex ?db)
        = map (\<lambda>b. outer psi ! ravel_multi_index (merge ks oi b) dims
                              ! ravel_multi_index (merge ks a b) dims
                              * v ! ravel_multi_index a ?da) (ndindex ?db)"
      by (intro map_cong refl)
    then show ?thesis by (simp only: sum_list_mult_const)
  qed
  have "sum_list (map ?G (ndindex dims))
        = sum_list (map (\<lambda>a. sum_list (map (\<lambda>b. ?G (merge ks a b)) (ndindex ?db)))
            (ndindex ?da))"
    by (rule sum_ndindex_split [OF n])
  also have "\<dots> = sum_list (map (\<lambda>a. sum_list (map (\<lambda>b. outer psi ! ravel_multi_index (merge ks oi b) dims
                              ! ravel_multi_index (merge ks a b) dims) (ndindex ?db))
        * v ! ravel_multi_index a ?da) (ndindex ?da))"
    using inner by (intro arg_cong [where f = sum_list] map_cong refl)
  also have "\<dots> = sum_list (map2 (*)
             (map (\<lambda>a. sum_list
                (map (\<lambda>b. outer psi ! ravel_multi_index (merge ks oi b) dims
                              ! ravel_multi_index (merge ks a b) dims)
                   (ndindex ?db)))
              (ndindex ?da)) v)"
    by (rule matvec_row [OF v, symmetric])
  finally show ?thesis .
qed

lemma label_size_assign:
  assumes "distinct (map fst C)" "set (axis_sizes ops) \<subseteq> set C"
    and "l \<in> fst ` set (axis_sizes ops)"
  shows "label_size ops l = (case map_of C l of Some d \<Rightarrow> d | None \<Rightarrow> 0)"
proof -
  from assms(3) obtain d where "(l, d) \<in> set (axis_sizes ops)" by force
  from map_of_functional [OF assms(1,2) this] show ?thesis by (simp add: label_size_def)
qed

lemma matvec_partial_trace:
  "matvec (partial_trace rho dims ks) v
   = map (\<lambda>oi. sum_list (map2 (*)
             (map (\<lambda>a. sum_list
                (map (\<lambda>b. rho ! ravel_multi_index (merge ks oi b) dims
                              ! ravel_multi_index (merge ks a b) dims)
                   (ndindex (select (map Not ks) dims))))
              (ndindex (select ks dims))) v))
       (ndindex (select ks dims))"
  by (simp add: matvec_def partial_trace_def Let_def comp_def)

lemma einsum_ptr_dot:
  assumes js: "distinct js" "sorted js" and ups: "distinct ups" "sorted ups"
    and dis: "set js \<inter> set ups = {}"
    and len: "length (filter P js) \<le> length ups" and n: "length js = length dims"
    and v: "length v = prod_list (select (map P js) dims)" and psi: "length psi = prod_list dims"
  shows "einsum [(\<lparr>shape = select (map P js) dims, data = v\<rparr>, filter P js),
                 (conjugate \<lparr>shape = dims, data = psi\<rparr>, js),
                 (\<lparr>shape = dims, data = psi\<rparr>, map (fresh_of P js ups) js)] None
         = Inr \<lparr>shape = select (map P js) dims,
                data = matvec (partial_trace (outer psi) dims (map P js)) v\<rparr>"
proof -
  let ?ks = "map P js"
  let ?da = "select ?ks dims" and ?db = "select (map Not ?ks) dims"
  let ?f = "fresh_of P js ups"
  let ?A = "\<lparr>shape = ?da, data = v\<rparr>" and ?B = "\<lparr>shape = dims, data = psi\<rparr>"
  let ?ops = "[(?A, filter P js), (conjugate ?B, js), (?B, map ?f js)]"
  let ?labels = "filter P js @ js @ map ?f js"
  let ?U = "take (length (filter P js)) ups"
  let ?Kc = "filter (\<lambda>i. \<not> P i) js"
  have labels: "concat (map snd ?ops) = ?labels" by simp
  have cnt: "count_list ?labels l = (if l \<in> set js then 2 else if l \<in> set ?U then 1 else 0)" for l
    by (rule ptr_dot_counts [OF js(1) ups(1) dis len])
  have U: "distinct ?U" "sorted ?U" "set ?U \<inter> set js = {}"
    using ups dis by (auto simp: sorted_wrt_take dest: in_set_takeD)
  have set_labels: "set ?labels = set js \<union> set ?U"
  proof (rule set_eqI)
    fix l
    have "l \<in> set ?labels \<longleftrightarrow> count_list ?labels l \<noteq> 0"
      by (simp only: count_list_0_iff) simp
    also have "\<dots> \<longleftrightarrow> l \<in> set js \<union> set ?U" by (simp only: cnt) simp
    finally show "l \<in> set ?labels \<longleftrightarrow> l \<in> set js \<union> set ?U" .
  qed
  have out: "sort (filter (\<lambda>l. count_list ?labels l = 1) (remdups ?labels)) = ?U"
  proof (rule sort_eq_sorted_distinct [OF U(2) U(1)])
    show "distinct (filter (\<lambda>l. count_list ?labels l = 1) (remdups ?labels))" by simp
    have "{l \<in> set ?labels. count_list ?labels l = 1} = set ?U"
      using U(3) by (simp only: cnt set_labels) auto
    then show "set (filter (\<lambda>l. count_list ?labels l = 1) (remdups ?labels)) = set ?U"
      by simp
  qed
  have summed: "sort (filter (\<lambda>l. l \<notin> set ?U) (remdups ?labels)) = js"
  proof (rule sort_eq_sorted_distinct [OF js(2) js(1)])
    show "distinct (filter (\<lambda>l. l \<notin> set ?U) (remdups ?labels))" by simp
    have "{l \<in> set ?labels. l \<notin> set ?U} = set js"
      using U(3) by (simp only: set_labels) auto
    then show "set (filter (\<lambda>l. l \<notin> set ?U) (remdups ?labels)) = set js" by simp
  qed
  have ax1: "set (axis_sizes ?ops) \<subseteq> set (zip (?U @ js) (?da @ dims))"
    by (rule ptr_dot_axes(1) [OF js(1) ups(1) dis len n _ _ _ refl refl])
       (simp_all add: conjugate_def)
  have ax2: "distinct (?U @ js)" using U js(1) by simp
  have lens: "length (filter P js) = length ?da" "length ?U = length ?da"
    using length_select_filter [of ?ks dims] n len by (simp_all add: filter_map comp_def)
  have dC: "distinct (map fst (zip (?U @ js) (?da @ dims)))"
    using ax2 lens n by (simp add: map_fst_zip del: distinct_append)
  have keys: "fst ` set (axis_sizes ?ops) = set ?labels"
    using lens n by (simp add: axis_sizes_def conjugate_def image_Un set_map [symmetric] map_fst_zip
        del: set_map)
  have size_eq: "label_size ?ops l = assign (?U @ js) (?da @ dims) l" if "l \<in> set ?labels" for l
    unfolding assign_def
    by (rule label_size_assign [OF dC]) (use ax1 keys that in \<open>simp_all add: conjugate_def\<close>)
  have size_U: "map (label_size ?ops) ?U = ?da"
  proof -
    have "map (label_size ?ops) ?U = map (assign (?U @ js) (?da @ dims)) ?U"
      by (intro map_cong refl size_eq) (simp only: set_labels, simp)
    then show ?thesis using assign_append(1) [OF ax2 lens(2) n] by simp
  qed
  have size_js: "map (label_size ?ops) js = dims"
  proof -
    have "map (label_size ?ops) js = map (assign (?U @ js) (?da @ dims)) js"
      by (intro map_cong refl size_eq) (simp only: set_labels, simp)
    then show ?thesis using assign_append(2) [OF ax2 lens(2) n] by simp
  qed
  have valid: "einsum_valid ?ops ?U"
  proof -
    have "list_all (\<lambda>(l, d). label_size ?ops l = d) (axis_sizes ?ops)"
    proof (simp only: list_all_iff, rule ballI, clarify)
      fix l d assume ld: "(l, d) \<in> set (axis_sizes ?ops)"
      from map_of_functional(1) [OF dC _ ld] ax1
      show "label_size ?ops l = d" by (simp add: label_size_def conjugate_def)
    qed
    moreover have "list_all (\<lambda>l. l \<in> set (concat (map snd ?ops))) ?U"
      by (simp only: labels set_labels list_all_iff) simp
    ultimately show ?thesis
      using lens n U(1) by (simp add: einsum_valid_def conjugate_def)
  qed
  have data: "sum_list (map (\<lambda>si. prod_list (map (\<lambda>(t, ls). item t (map (assign (?U @ js) (oi @ si)) ls)) ?ops))
                   (ndindex dims))
        = sum_list (map2 (*)
             (map (\<lambda>a. sum_list
                (map (\<lambda>b. outer psi ! ravel_multi_index (merge ?ks oi b) dims
                              ! ravel_multi_index (merge ?ks a b) dims)
                   (ndindex ?db)))
              (ndindex ?da)) v)"
    if oi: "oi \<in> set (ndindex ?da)" for oi
  proof -
    have "prod_list (map (\<lambda>(t, ls). item t (map (assign (?U @ js) (oi @ si)) ls)) ?ops)
        = v ! ravel_multi_index (select ?ks si) ?da
                     * (cnj (psi ! ravel_multi_index si dims)
                        * (psi ! ravel_multi_index (merge ?ks oi (select (map Not ?ks) si)) dims
                           * 1))"
      if si: "si \<in> set (ndindex dims)" for si
    proof -
      let ?env = "assign (?U @ js) (oi @ si)"
      have lo: "length ?U = length oi" and ls: "length js = length si"
        using oi si lens n by (simp_all add: ndindex_length)
      have eU: "map ?env ?U = oi" and ejs: "map ?env js = si"
        using assign_append [OF ax2 lo ls] by simp_all
      have eK: "map ?env (filter P js) = select ?ks si"
        using map_filter_select [of ?env P js] ejs by simp
      have eKc: "map ?env ?Kc = select (map Not ?ks) si"
        using map_filter_select [of ?env "\<lambda>i. \<not> P i" js] ejs by (simp add: comp_def)
      have ef: "map ?env (map ?f js) = merge ?ks oi (select (map Not ?ks) si)"
        by (simp only: fresh_of_merge [OF js(1) len] map_merge_distrib eU eKc)
      have "ravel_multi_index si dims < length psi"
        using si psi by (auto simp: set_ndindex intro: ravel_bound)
      then show ?thesis
        by (simp only: list.map prod.case eK ejs ef prod_list.Cons prod_list.Nil)
           (simp add: item_def conjugate_def)
    qed
    then have "map (\<lambda>si. prod_list (map (\<lambda>(t, ls). item t (map (assign (?U @ js) (oi @ si)) ls)) ?ops))
                   (ndindex dims)
      = map (\<lambda>si. v ! ravel_multi_index (select ?ks si) ?da
                     * (cnj (psi ! ravel_multi_index si dims)
                        * (psi ! ravel_multi_index (merge ?ks oi (select (map Not ?ks) si)) dims
                           * 1))) (ndindex dims)"
      by (intro map_cong refl)
    moreover have nk: "length ?ks = length dims" using n by simp
    ultimately show ?thesis
      by (simp only: ptr_dot_summand [OF nk oi v psi])
  qed
  have "einsum ?ops None = Inr \<lparr>shape = ?da,
      data = map (\<lambda>oi. sum_list (map (\<lambda>si. prod_list
               (map (\<lambda>(t, ls). item t (map (assign (?U @ js) (oi @ si)) ls)) ?ops))
                   (ndindex dims))) (ndindex ?da)\<rparr>"
    unfolding einsum_def Let_def labels
    by (simp only: option.case out summed valid size_U size_js not_True_eq_False if_False)
  also have "map (\<lambda>oi. sum_list (map (\<lambda>si. prod_list
               (map (\<lambda>(t, ls). item t (map (assign (?U @ js) (oi @ si)) ls)) ?ops))
                   (ndindex dims))) (ndindex ?da)
      = matvec (partial_trace (outer psi) dims ?ks) v"
    by (subst matvec_partial_trace, intro map_cong refl data)
  finally show ?thesis .
qed

lemma get_cntrct_inds_ptr_dot_closed:
  "get_cntrct_inds_ptr_dot ndim sysa =
     Inr (filter (\<lambda>i. i \<in> set sysa) (py_range 0 ndim), py_range 0 ndim,
          map (fresh_of (\<lambda>i. i \<in> set sysa) (py_range 0 ndim) (py_range ndim (2 * ndim)))
            (py_range 0 ndim))"
  unfolding get_cntrct_inds_ptr_dot_def
  using ptr_dot_loop_closed [OF py_range_facts(1) [of 0 ndim]
      planner_pre(1) [of "\<lambda>i. i \<in> set sysa" ndim], where a = "[]" and b = "[]" and k = "[]"]
  by simp

lemma get_cntrct_inds_ptr_ppt_dot_closed:
  "get_cntrct_inds_ptr_ppt_dot ndim sysa sysb =
     Inr (map (\<lambda>i. if i \<in> set sysa then i
                    else fresh_of (\<lambda>i. i \<in> set sysa \<or> i \<in> set sysb) (py_range 0 ndim)
                           (py_range ndim (2 * ndim)) i)
            (filter (\<lambda>i. i \<in> set sysa \<or> i \<in> set sysb) (py_range 0 ndim)),
          map (fresh_of (\<lambda>i. i \<in> set sysa \<or> i \<in> set sysb) (py_range 0 ndim)
                 (py_range ndim (2 * ndim))) (py_range 0 ndim),
          py_range 0 ndim,
          map (\<lambda>i. if i \<in> set sysa
                    then fresh_of (\<lambda>i. i \<in> set sysa \<or> i \<in> set sysb) (py_range 0 ndim)
                           (py_range ndim (2 * ndim)) i
                    else i)
            (filter (\<lambda>i. i \<in> set sysa \<or> i \<in> set sysb) (py_range 0 ndim)))"
  unfolding get_cntrct_inds_ptr_ppt_dot_def
  using ptr_ppt_dot_loop_closed [OF py_range_facts(1) [of 0 ndim]
      planner_pre(1) [of "\<lambda>i. i \<in> set sysa \<or> i \<in> set sysb" ndim],
      where ab = "[]" and b = "[]" and k = "[]" and out = "[]"]
  by simp

lemma py_range_sorted: "sorted (py_range a b)"
  by (simp add: py_range_def)

lemma keep_mask_py_range:
  "keep_mask n sys = map (\<lambda>i. i \<in> set sys) (py_range 0 (int n))"
  by (simp add: keep_mask_def py_range_nat comp_def)

lemma lazy_ptr_dot_explicit:
  assumes ab: "is_array psi_ab" and a: "is_array psi_a"
    and sab: "nd_size psi_ab = prod_list dims"
    and sa: "nd_size psi_a = prod_list (dims_of dims (int2tup sysa))"
  shows "lazy_ptr_dot einsum psi_ab psi_a (Some dims) (Some sysa) =
         Inr \<lparr>shape = shape psi_a,
              data = matvec (partial_trace (outer (data psi_ab)) dims
                               (keep_mask (length dims) (int2tup sysa))) (data psi_a)\<rparr>"
proof -
  let ?n = "int (length dims)"
  let ?js = "py_range 0 ?n" and ?ups = "py_range ?n (2 * ?n)"
  let ?P = "\<lambda>i. i \<in> set (int2tup sysa)"
  let ?da = "select (map ?P ?js) dims"
  have da: "dims_of dims (int2tup sysa) = ?da"
    by (simp only: dims_of_select keep_mask_py_range)
  have n: "length ?js = length dims" by (simp add: py_range_facts)
  have v: "length (data psi_a) = prod_list ?da"
    using a sa by (simp add: is_array_def nd_size_def da)
  have psi: "length (data psi_ab) = prod_list dims"
    using ab sab by (simp add: is_array_def nd_size_def)
  have r1: "reshape (asarray psi_ab) dims = Inr \<lparr>shape = dims, data = data psi_ab\<rparr>"
    using sab by (simp add: reshape_def asarray_def)
  have r2: "reshape (asarray psi_a) ?da = Inr \<lparr>shape = ?da, data = data psi_a\<rparr>"
    using sa by (simp add: reshape_def asarray_def da)
  note e = einsum_ptr_dot [OF py_range_facts(1) [of 0 ?n] py_range_sorted
      py_range_facts(1) [of ?n "2 * ?n"] py_range_sorted planner_pre(2) [of ?n]
      planner_pre(1) [of ?P ?n] n v psi]
  have r3: "reshape \<lparr>shape = ?da, data = matvec (partial_trace (outer (data psi_ab)) dims
                               (map ?P ?js)) (data psi_a)\<rparr> (shape psi_a)
      = Inr \<lparr>shape = shape psi_a, data = matvec (partial_trace (outer (data psi_ab)) dims
                               (map ?P ?js)) (data psi_a)\<rparr>"
    using sa by (simp add: reshape_def nd_size_def da)
  show ?thesis
    unfolding lazy_ptr_dot_def Let_def
    by (simp only: option.case sum.case get_cntrct_inds_ptr_dot_closed prod.case da r1 r2 e r3
        keep_mask_py_range)
qed

text \<open>With explicit output labels, and when every label is below 26, the two bindings of
  \<^verbatim>\<open>einsum\<close> agree.\<close>

lemma contract_explicit: "contract ops (Some out) = einsum ops (Some out)"
  by (simp add: contract_def)

lemma insort_key_order:
  "\<forall>y \<in> set ys. (f x \<le> f y) = (x \<le> y) \<Longrightarrow> insort_key f x ys = insort x ys"
  by (induction ys) simp_all

lemma sort_key_order:
  "\<forall>x \<in> set xs. \<forall>y \<in> set xs. (f x \<le> f y) = (x \<le> y) \<Longrightarrow> sort_key f xs = sort xs"
proof (induction xs)
  case Nil
  then show ?case by simp
next
  case (Cons x xs)
  then have "sort_key f xs = sort xs" by simp
  moreover have "insort_key f x (sort xs) = insort x (sort xs)"
    using Cons.prems by (intro insort_key_order) simp
  ultimately show ?case by simp
qed

lemma contract_default_small:
  assumes "\<forall>l \<in> set (concat (map snd ops)). l < 26"
  shows "contract ops None = einsum ops None"
proof -
  let ?labels = "concat (map snd ops)"
  let ?once = "filter (\<lambda>l. count_list ?labels l = 1) (remdups ?labels)"
  have "sort_key symbol_ord ?once = sort ?once"
    using assms by (intro sort_key_order) (auto simp: symbol_ord_def)
  then have "contract ops None = einsum ops (Some (sort ?once))"
    by (simp add: contract_def Let_def)
  also have "\<dots> = einsum ops None"
    by (simp add: einsum_def Let_def)
  finally show ?thesis .
qed

lemma lazy_ptr_dot_contract_small:
  assumes "length dims \<le> 13"
  shows "lazy_ptr_dot contract psi_ab psi_a (Some dims) sysa
         = lazy_ptr_dot einsum psi_ab psi_a (Some dims) sysa"
proof -
  let ?n = "int (length dims)"
  let ?s = "int2tup (case sysa of None \<Rightarrow> SysInt 0 | Some s \<Rightarrow> s)"
  let ?P = "\<lambda>i. i \<in> set ?s"
  let ?js = "py_range 0 ?n" and ?ups = "py_range ?n (2 * ?n)"
  let ?f = "fresh_of ?P ?js ?ups"
  have f: "?f i < 26" if "i \<in> set ?js" for i
  proof (cases "?P i")
    case True
    from fresh_of_range [of ?P i ?n, OF True that] assms show ?thesis by simp
  next
    case False
    with that assms show ?thesis by (simp add: fresh_of_not py_range_facts)
  qed
  have "contract [(A, filter ?P ?js), (B, ?js), (C, map ?f ?js)] None
      = einsum [(A, filter ?P ?js), (B, ?js), (C, map ?f ?js)] None" for A B C
    using assms f by (intro contract_default_small) (auto simp: py_range_facts)
  then show ?thesis
    unfolding lazy_ptr_dot_def Let_def
    by (simp only: option.case sum.case get_cntrct_inds_ptr_dot_closed prod.case)
qed

lemma lazy_ptr_dot_defaults:
  "(nd_size psi_a \<noteq> 0 \<longrightarrow>
      lazy_ptr_dot ein psi_ab psi_a None sysa_arg =
        lazy_ptr_dot ein psi_ab psi_a
          (Some [nd_size psi_a, nd_size psi_ab div nd_size psi_a]) sysa_arg) \<and>
   lazy_ptr_dot ein psi_ab psi_a dims_arg None =
     lazy_ptr_dot ein psi_ab psi_a dims_arg (Some (SysInt 0))"
proof (intro conjI impI)
  assume "nd_size psi_a \<noteq> 0"
  then show "lazy_ptr_dot ein psi_ab psi_a None sysa_arg =
        lazy_ptr_dot ein psi_ab psi_a
          (Some [nd_size psi_a, nd_size psi_ab div nd_size psi_a]) sysa_arg"
    by (simp add: lazy_ptr_dot_def Let_def)
next
  show "lazy_ptr_dot ein psi_ab psi_a dims_arg None =
     lazy_ptr_dot ein psi_ab psi_a dims_arg (Some (SysInt 0))"
    by (cases dims_arg) (simp_all add: lazy_ptr_dot_def Let_def)
qed

text \<open>
  Claim C1.  \<^verbatim>\<open>lazy_ptr_dot\<close> passes no output labels to \<^verbatim>\<open>einsum\<close>, so that the axes of
  the result are in the default order of the library that the name is bound to.  In the
  order of the integers (\<^verbatim>\<open>numpy.einsum\<close>) the result is the reduced density matrix
  multiplied by \<open>psi_a\<close>, for every \<open>dims\<close> and \<open>sysa\<close> (lemma \<open>lazy_ptr_dot_explicit\<close>),
  and so it is for \<^verbatim>\<open>opt_einsum.contract\<close>, the module's first choice, when there are at
  most 13 subsystems (lemma \<open>lazy_ptr_dot_contract_small\<close>).  It is not for every
  \<open>dims\<close>: with the 25 subsystems of dimensions \<open>(2, 1, ..., 1, 2)\<close> and \<open>sysa = (0, 24)\<close>,
  the fresh labels of the two kept subsystems are 25 and 26, which \<^verbatim>\<open>opt_einsum\<close> names
  \<^verbatim>\<open>z\<close> and \<^verbatim>\<open>A\<close> and lists as \<^verbatim>\<open>Az\<close>.  For \<open>psi_ab = (1, 2, 3\<i>, 4)\<close> and
  \<open>psi_a = (1, 0, 0, 0)\<close> the function returns \<open>(1, 3\<i>, 2, 4)\<close>, the two kept axes
  exchanged, where the reduced density matrix multiplied by \<open>psi_a\<close> is \<open>(1, 2, 3\<i>, 4)\<close>,
  which is also what the function returns in the order of the integers.
\<close>

theorem lazy_ptr_dot_default_output_order:
  "lazy_ptr_dot contract \<lparr>shape = [4], data = [1, 2, 3 * \<i>, 4]\<rparr>
       \<lparr>shape = [4], data = [1, 0, 0, 0]\<rparr>
       (Some [2, 1, 1, 1, 1, 1, 1, 1, 1, 1, 1, 1, 1, 1, 1, 1, 1, 1, 1, 1, 1, 1, 1, 1, 2])
       (Some (SysTuple [0, 24]))
     = Inr \<lparr>shape = [4], data = [1, 3 * \<i>, 2, 4]\<rparr> \<and>
   matvec (partial_trace (outer [1, 2, 3 * \<i>, 4])
             [2, 1, 1, 1, 1, 1, 1, 1, 1, 1, 1, 1, 1, 1, 1, 1, 1, 1, 1, 1, 1, 1, 1, 1, 2]
             (keep_mask (length ([2 :: nat, 1, 1, 1, 1, 1, 1, 1, 1, 1, 1, 1, 1, 1, 1, 1, 1, 1, 1, 1, 1, 1, 1, 1, 2]))
                (int2tup (SysTuple [0, 24]))))
       [1, 0, 0, 0]
     = [1, 2, 3 * \<i>, 4] \<and>
   lazy_ptr_dot einsum \<lparr>shape = [4], data = [1, 2, 3 * \<i>, 4]\<rparr>
       \<lparr>shape = [4], data = [1, 0, 0, 0]\<rparr>
       (Some [2, 1, 1, 1, 1, 1, 1, 1, 1, 1, 1, 1, 1, 1, 1, 1, 1, 1, 1, 1, 1, 1, 1, 1, 2])
       (Some (SysTuple [0, 24]))
     = Inr \<lparr>shape = [4], data = [1, 2, 3 * \<i>, 4]\<rparr>"
proof (intro conjI)
  let ?psi = "\<lparr>shape = [4], data = [1, 2, 3 * \<i>, 4]\<rparr>"
  let ?v = "\<lparr>shape = [4], data = [1, 0, 0, 0]\<rparr>"
  let ?dims = "[2 :: nat, 1, 1, 1, 1, 1, 1, 1, 1, 1, 1, 1, 1, 1, 1, 1, 1, 1, 1, 1, 1, 1, 1, 1, 2]"
  show "lazy_ptr_dot contract ?psi ?v (Some ?dims) (Some (SysTuple [0, 24]))
      = Inr \<lparr>shape = [4], data = [1, 3 * \<i>, 2, 4]\<rparr>"
    by code_simp
  show mv: "matvec (partial_trace (outer [1, 2, 3 * \<i>, 4]) ?dims
               (keep_mask (length ?dims) (int2tup (SysTuple [0, 24])))) [1, 0, 0, 0]
      = [1, 2, 3 * \<i>, 4]"
    by code_simp
  have h1: "is_array ?psi" and h2: "is_array ?v" by (simp_all add: is_array_def)
  have h3: "nd_size ?psi = prod_list ?dims" by code_simp
  have h4: "nd_size ?v = prod_list (dims_of ?dims (int2tup (SysTuple [0, 24])))" by code_simp
  have "lazy_ptr_dot einsum ?psi ?v (Some ?dims) (Some (SysTuple [0, 24])) =
         Inr \<lparr>shape = shape ?v,
              data = matvec (partial_trace (outer (data ?psi)) ?dims
                               (keep_mask (length ?dims) (int2tup (SysTuple [0, 24]))))
                       (data ?v)\<rparr>"
    by (rule lazy_ptr_dot_explicit [OF h1 h2 h3 h4])
  then show "lazy_ptr_dot einsum ?psi ?v (Some ?dims) (Some (SysTuple [0, 24]))
      = Inr \<lparr>shape = [4], data = [1, 2, 3 * \<i>, 4]\<rparr>"
    by (simp only: mv ndarray.simps)
qed

text \<open>
  Claim C8.  When the product of \<open>dims\<close> differs from the size of \<open>psi_ab\<close> (\<open>psi_abc\<close>),
  or the product of the kept dimensions differs from the size of \<open>psi_a\<close> (\<open>psi_ab\<close>), the
  call raises the \<^verbatim>\<open>ValueError\<close> of \<^verbatim>\<open>reshape\<close>, whatever the contraction primitive
  \<open>ein\<close> is: the error is raised before \<open>ein\<close> is called.  So it is when \<open>dims\<close> is omitted
  and the size of \<open>psi_a\<close> does not divide the size of \<open>psi_ab\<close>.
\<close>

theorem shape_mismatch_raises:
  "(nd_size psi_ab \<noteq> prod_list dims \<or>
    nd_size psi_a \<noteq> prod_list (dims_of dims (int2tup sysa)) \<longrightarrow>
      lazy_ptr_dot ein psi_ab psi_a (Some dims) (Some sysa) = Inl ReshapeError) \<and>
   (nd_size psi_a \<noteq> 0 \<and> \<not> nd_size psi_a dvd nd_size psi_ab \<longrightarrow>
      lazy_ptr_dot ein psi_ab psi_a None sysa_arg = Inl ReshapeError) \<and>
   (nd_size psi_abc \<noteq> prod_list dims \<or>
    nd_size psi_ab \<noteq> prod_list (dims_of dims (int2tup sysa @ int2tup sysb)) \<longrightarrow>
      lazy_ptr_ppt_dot ein psi_abc psi_ab dims sysa sysb = Inl ReshapeError)"
proof (intro conjI impI)
  assume "nd_size psi_ab \<noteq> prod_list dims \<or>
    nd_size psi_a \<noteq> prod_list (dims_of dims (int2tup sysa))"
  then show "lazy_ptr_dot ein psi_ab psi_a (Some dims) (Some sysa) = Inl ReshapeError"
    by (auto simp: lazy_ptr_dot_def Let_def get_cntrct_inds_ptr_dot_closed reshape_def asarray_def)
next
  assume a: "nd_size psi_a \<noteq> 0 \<and> \<not> nd_size psi_a dvd nd_size psi_ab"
  then have "nd_size psi_a * (nd_size psi_ab div nd_size psi_a) \<noteq> nd_size psi_ab"
    by (metis dvd_triv_left)
  with a show "lazy_ptr_dot ein psi_ab psi_a None sysa_arg = Inl ReshapeError"
    by (simp add: lazy_ptr_dot_def Let_def get_cntrct_inds_ptr_dot_closed reshape_def asarray_def)
next
  have dims_ab: "map snd (filter (\<lambda>(i, d). int i \<in> set (int2tup sysa) \<or> int i \<in> set (int2tup sysb))
        (enumerate 0 dims)) = dims_of dims (int2tup sysa @ int2tup sysb)"
    by (simp add: dims_of_def)
  assume "nd_size psi_abc \<noteq> prod_list dims \<or>
    nd_size psi_ab \<noteq> prod_list (dims_of dims (int2tup sysa @ int2tup sysb))"
  then show "lazy_ptr_ppt_dot ein psi_abc psi_ab dims sysa sysb = Inl ReshapeError"
    unfolding lazy_ptr_ppt_dot_def Let_def dims_ab
    by (auto simp: get_cntrct_inds_ptr_ppt_dot_closed reshape_def asarray_def)
qed

theorem shape_mismatch_raises_witness:
  "nd_size \<lparr>shape = [4], data = [1, 0, \<i>, 0]\<rparr> \<noteq> prod_list [2, 3] \<and>
   lazy_ptr_dot einsum \<lparr>shape = [4], data = [1, 0, \<i>, 0]\<rparr> \<lparr>shape = [2], data = [0, 1]\<rparr>
     (Some [2, 3]) (Some (SysInt 0)) = Inl ReshapeError \<and>
   nd_size \<lparr>shape = [3], data = [0, 1, 0]\<rparr> \<noteq> 0 \<and>
   \<not> nd_size \<lparr>shape = [3], data = [0, 1, 0]\<rparr> dvd nd_size \<lparr>shape = [4], data = [1, 0, \<i>, 0]\<rparr> \<and>
   lazy_ptr_dot einsum \<lparr>shape = [4], data = [1, 0, \<i>, 0]\<rparr> \<lparr>shape = [3], data = [0, 1, 0]\<rparr>
     None None = Inl ReshapeError \<and>
   nd_size \<lparr>shape = [3], data = [0, 1, 0]\<rparr>
     \<noteq> prod_list (dims_of [2, 2] (int2tup (SysInt 0) @ int2tup (SysInt 1))) \<and>
   lazy_ptr_ppt_dot einsum \<lparr>shape = [4], data = [1, 0, \<i>, 0]\<rparr>
     \<lparr>shape = [3], data = [0, 1, 0]\<rparr> [2, 2] (SysInt 0) (SysInt 1) = Inl ReshapeError"
proof -
  let ?psi = "\<lparr>shape = [4], data = [1, 0, \<i>, 0]\<rparr>" and ?v = "\<lparr>shape = [2], data = [0, 1]\<rparr>"
  let ?w = "\<lparr>shape = [3], data = [0, 1, 0]\<rparr>"
  have h1: "nd_size ?psi \<noteq> prod_list [2, 3]" by (simp add: nd_size_def)
  have h2: "nd_size ?w \<noteq> 0 \<and> \<not> nd_size ?w dvd nd_size ?psi" by (simp add: nd_size_def)
  have h3: "nd_size ?w \<noteq> prod_list (dims_of [2, 2] (int2tup (SysInt 0) @ int2tup (SysInt 1)))"
    by (simp add: nd_size_def dims_of_def enumerate_eq_zip upt_rec)
  note t1 = shape_mismatch_raises [of ?psi "[2, 3]" ?v "SysInt 0" einsum,
      THEN conjunct1, THEN mp, OF disjI1, OF h1]
  note t2 = shape_mismatch_raises [where psi_a = ?w and psi_ab = ?psi and ein = einsum
      and sysa_arg = None, THEN conjunct2, THEN conjunct1, THEN mp, OF h2]
  note t3 = shape_mismatch_raises [where psi_abc = ?psi and psi_ab = ?w and dims = "[2, 2]"
      and sysa = "SysInt 0" and sysb = "SysInt 1" and ein = einsum,
      THEN conjunct2, THEN conjunct2, THEN mp, OF disjI2, OF h3]
  from h1 h2 h3 t1 t2 t3 show ?thesis by (simp only: simp_thms)
qed

lemma dims_of_cong:
  assumes "\<And>i. 0 \<le> i \<Longrightarrow> i < int (length dims) \<Longrightarrow> i \<in> set sys \<longleftrightarrow> i \<in> set sys'"
  shows "dims_of dims sys = dims_of dims sys'"
proof -
  have "filter (\<lambda>(i, d). int i \<in> set sys) (enumerate 0 dims)
        = filter (\<lambda>(i, d). int i \<in> set sys') (enumerate 0 dims)"
    by (rule filter_cong [OF refl]) (auto simp: in_set_enumerate_eq assms)
  then show ?thesis by (simp add: dims_of_def)
qed

lemma planner_ptr_dot_cong:
  assumes "\<And>i. 0 \<le> i \<Longrightarrow> i < ndim \<Longrightarrow> i \<in> set sysa \<longleftrightarrow> i \<in> set sysa'"
  shows "get_cntrct_inds_ptr_dot ndim sysa = get_cntrct_inds_ptr_dot ndim sysa'"
proof -
  have f: "filter (\<lambda>i. i \<in> set sysa) (py_range 0 ndim) = filter (\<lambda>i. i \<in> set sysa') (py_range 0 ndim)"
    by (rule filter_cong [OF refl]) (simp add: py_range_facts assms)
  then have "fresh_of (\<lambda>i. i \<in> set sysa) (py_range 0 ndim) ups
        = fresh_of (\<lambda>i. i \<in> set sysa') (py_range 0 ndim) ups" for ups
    by (simp add: fresh_of_def [abs_def])
  with f show ?thesis by (simp only: get_cntrct_inds_ptr_dot_closed)
qed

lemma planner_ptr_ppt_dot_cong:
  assumes a: "\<And>i. 0 \<le> i \<Longrightarrow> i < ndim \<Longrightarrow> i \<in> set sysa \<longleftrightarrow> i \<in> set sysa'"
    and b: "\<And>i. 0 \<le> i \<Longrightarrow> i < ndim \<Longrightarrow>
              i \<in> set sysa \<or> i \<in> set sysb \<longleftrightarrow> i \<in> set sysa' \<or> i \<in> set sysb'"
  shows "get_cntrct_inds_ptr_ppt_dot ndim sysa sysb = get_cntrct_inds_ptr_ppt_dot ndim sysa' sysb'"
proof -
  let ?js = "py_range 0 ndim"
  let ?P = "\<lambda>i. i \<in> set sysa \<or> i \<in> set sysb" and ?P' = "\<lambda>i. i \<in> set sysa' \<or> i \<in> set sysb'"
  have f: "filter ?P ?js = filter ?P' ?js"
    by (rule filter_cong [OF refl]) (simp add: py_range_facts b)
  then have g: "fresh_of ?P ?js ups = fresh_of ?P' ?js ups" for ups
    by (simp add: fresh_of_def [abs_def])
  have 1: "map (\<lambda>i. if i \<in> set sysa then i else h i) (filter ?P' ?js)
      = map (\<lambda>i. if i \<in> set sysa' then i else h i) (filter ?P' ?js)" for h
    by (rule map_cong [OF refl]) (simp add: py_range_facts a)
  have 2: "map (\<lambda>i. if i \<in> set sysa then h i else i) (filter ?P' ?js)
      = map (\<lambda>i. if i \<in> set sysa' then h i else i) (filter ?P' ?js)" for h
    by (rule map_cong [OF refl]) (simp add: py_range_facts a)
  show ?thesis
    by (simp only: get_cntrct_inds_ptr_ppt_dot_closed f g 1 2)
qed

text \<open>
  Claim C9, as the code has it.  Neither the planners nor the lazy contraction functions
  check their subsets, and there is no \<^verbatim>\<open>InvalidSubsetError\<close>.  Both planners return a
  plan for every \<open>ndim\<close> and all subsets.  Indices outside \<open>0 .. ndim - 1\<close> are ignored:
  the plan, and the result of a lazy contraction function, is the one for the subsets
  without them.  An index in both \<open>sysa\<close> and \<open>sysb\<close> is taken as one of \<open>sysa\<close> only:
  the plan and the result are those for \<open>sysb\<close> without the indices of \<open>sysa\<close>.
\<close>

theorem subsets_not_validated:
  "(\<exists>p. get_cntrct_inds_ptr_dot ndim sysa = Inr p) \<and>
   get_cntrct_inds_ptr_dot ndim sysa =
     get_cntrct_inds_ptr_dot ndim (filter (\<lambda>i. 0 \<le> i \<and> i < ndim) sysa) \<and>
   (\<exists>p. get_cntrct_inds_ptr_ppt_dot ndim sysa sysb = Inr p) \<and>
   get_cntrct_inds_ptr_ppt_dot ndim sysa sysb =
     get_cntrct_inds_ptr_ppt_dot ndim (filter (\<lambda>i. 0 \<le> i \<and> i < ndim) sysa)
       (filter (\<lambda>i. 0 \<le> i \<and> i < ndim \<and> i \<notin> set sysa) sysb) \<and>
   lazy_ptr_dot ein psi_ab psi_a (Some dims) (Some (SysTuple sysa)) =
     lazy_ptr_dot ein psi_ab psi_a (Some dims)
       (Some (SysTuple (filter (\<lambda>i. 0 \<le> i \<and> i < int (length dims)) sysa))) \<and>
   lazy_ptr_ppt_dot ein psi_abc psi_ab' dims (SysTuple sysa) (SysTuple sysb) =
     lazy_ptr_ppt_dot ein psi_abc psi_ab' dims
       (SysTuple (filter (\<lambda>i. 0 \<le> i \<and> i < int (length dims)) sysa))
       (SysTuple (filter (\<lambda>i. 0 \<le> i \<and> i < int (length dims) \<and> i \<notin> set sysa) sysb))"
proof (intro conjI)
  show "\<exists>p. get_cntrct_inds_ptr_dot ndim sysa = Inr p"
    by (simp only: get_cntrct_inds_ptr_dot_closed) blast
  show "\<exists>p. get_cntrct_inds_ptr_ppt_dot ndim sysa sysb = Inr p"
    by (simp only: get_cntrct_inds_ptr_ppt_dot_closed) blast
  show p1: "get_cntrct_inds_ptr_dot n sysa =
     get_cntrct_inds_ptr_dot n (filter (\<lambda>i. 0 \<le> i \<and> i < n) sysa)" for n
    by (rule planner_ptr_dot_cong) simp
  show p2: "get_cntrct_inds_ptr_ppt_dot n sysa sysb =
     get_cntrct_inds_ptr_ppt_dot n (filter (\<lambda>i. 0 \<le> i \<and> i < n) sysa)
       (filter (\<lambda>i. 0 \<le> i \<and> i < n \<and> i \<notin> set sysa) sysb)" for n
    by (rule planner_ptr_ppt_dot_cong) auto
  let ?n = "int (length dims)"
  have d1: "dims_of dims sysa = dims_of dims (filter (\<lambda>i. 0 \<le> i \<and> i < ?n) sysa)"
    by (rule dims_of_cong) simp
  show "lazy_ptr_dot ein psi_ab psi_a (Some dims) (Some (SysTuple sysa)) =
     lazy_ptr_dot ein psi_ab psi_a (Some dims)
       (Some (SysTuple (filter (\<lambda>i. 0 \<le> i \<and> i < ?n) sysa)))"
    unfolding lazy_ptr_dot_def Let_def
    by (simp only: option.case sum.case int2tup.simps p1 [of ?n] d1 [symmetric])
  have d2: "map snd (filter (\<lambda>(i, d). int i \<in> set sysa \<or> int i \<in> set sysb) (enumerate 0 dims))
      = map snd (filter (\<lambda>(i, d). int i \<in> set (filter (\<lambda>i. 0 \<le> i \<and> i < ?n) sysa)
           \<or> int i \<in> set (filter (\<lambda>i. 0 \<le> i \<and> i < ?n \<and> i \<notin> set sysa) sysb))
          (enumerate 0 dims))"
    by (rule arg_cong [where f = "map snd"], rule filter_cong [OF refl])
       (auto simp: in_set_enumerate_eq)
  show "lazy_ptr_ppt_dot ein psi_abc psi_ab' dims (SysTuple sysa) (SysTuple sysb) =
     lazy_ptr_ppt_dot ein psi_abc psi_ab' dims
       (SysTuple (filter (\<lambda>i. 0 \<le> i \<and> i < ?n) sysa))
       (SysTuple (filter (\<lambda>i. 0 \<le> i \<and> i < ?n \<and> i \<notin> set sysa) sysb))"
    unfolding lazy_ptr_ppt_dot_def Let_def
    by (simp only: int2tup.simps p2 [of ?n] d2 [symmetric])
qed

theorem subsets_not_validated_counterexample:
  "get_cntrct_inds_ptr_ppt_dot 2 [0] [0] = Inr ([0], [2, 1], [0, 1], [2]) \<and>
   get_cntrct_inds_ptr_dot 2 [5] = Inr ([], [0, 1], [0, 1]) \<and>
   get_cntrct_inds_ptr_ppt_dot 2 [0] [- 1, 2] = Inr ([0], [2, 1], [0, 1], [2]) \<and>
   lazy_ptr_dot einsum \<lparr>shape = [4], data = [1, 0, \<i>, 0]\<rparr> \<lparr>shape = [2], data = [0, 1]\<rparr>
     (Some [2, 2]) (Some (SysTuple [0, 7])) = Inr \<lparr>shape = [2], data = [- \<i>, 1]\<rparr>"
proof (intro conjI)
  show "get_cntrct_inds_ptr_ppt_dot 2 [0] [0] = Inr ([0], [2, 1], [0, 1], [2])"
    by (simp add: get_cntrct_inds_ptr_ppt_dot_def py_range_rec)
  show "get_cntrct_inds_ptr_dot 2 [5] = Inr ([], [0, 1], [0, 1])"
    by (simp add: get_cntrct_inds_ptr_dot_def py_range_rec)
  show "get_cntrct_inds_ptr_ppt_dot 2 [0] [- 1, 2] = Inr ([0], [2, 1], [0, 1], [2])"
    by (simp add: get_cntrct_inds_ptr_ppt_dot_def py_range_rec)
  show "lazy_ptr_dot einsum \<lparr>shape = [4], data = [1, 0, \<i>, 0]\<rparr> \<lparr>shape = [2], data = [0, 1]\<rparr>
     (Some [2, 2]) (Some (SysTuple [0, 7])) = Inr \<lparr>shape = [2], data = [- \<i>, 1]\<rparr>"
    by code_simp
qed

section \<open>Properties of the Lanczos functions\<close>

lemma lanczos_loop_append:
  "lanczos_loop A (xs @ ys) s =
     (case lanczos_loop A xs s of Inl e \<Rightarrow> Inl e | Inr s' \<Rightarrow> lanczos_loop A ys s')"
  by (induction xs arbitrary: s) (auto split: sum.splits)

lemma c_sum_foldl:
  "foldl c_add (Some a) (map Some ys) = Some (a + sum_list ys)"
  by (induction ys arbitrary: a) (simp_all add: c_add_def lift2_def add.assoc)

lemma foldl_c_add_None: "foldl c_add None zs = None"
  by (induction zs) (simp_all add: c_add_def lift2_def)

lemma foldl_c_add_Some:
  "foldl c_add acc zs = Some s \<Longrightarrow> \<exists>a ys. acc = Some a \<and> zs = map Some ys \<and> s = a + sum_list ys"
proof (induction zs arbitrary: acc)
  case Nil
  then show ?case by simp
next
  case (Cons z zs)
  from Cons.IH [OF Cons.prems [simplified]] obtain a ys
    where a: "c_add acc z = Some a" "zs = map Some ys" "s = a + sum_list ys" by blast
  from a(1) obtain a0 z0 where "acc = Some a0" "z = Some z0" "a = a0 + z0"
    by (auto simp: c_add_def lift2_def split: option.splits)
  with a show ?case
    by (intro exI [of _ a0] exI [of _ "z0 # ys"]) (simp add: add.assoc)
qed

lemma re_inner_nonneg:
  assumes "re_inner w w = Some r"
  shows "0 \<le> r"
proof -
  from assms obtain s where s: "c_sum (map2 (\<lambda>a b. c_mul (map_option cnj a) b) w w) = Some s"
    and r: "r = Re s"
    by (auto simp: re_inner_def c_real_def)
  from foldl_c_add_Some [OF s [unfolded c_sum_def]] obtain ys
    where ys: "map2 (\<lambda>a b. c_mul (map_option cnj a) b) w w = map Some ys" "s = sum_list ys"
    by auto
  have "\<forall>y \<in> set ys. 0 \<le> Re y"
  proof
    fix y assume "y \<in> set ys"
    then have "Some y \<in> set (map2 (\<lambda>a b. c_mul (map_option cnj a) b) w w)"
      by (simp add: ys)
    then obtain a where "Some y = c_mul (map_option cnj a) a"
      by (auto simp: set_zip)
    then obtain z where "y = cnj z * z"
      by (cases a) (auto simp: c_mul_def lift2_def)
    then show "0 \<le> Re y" by simp
  qed
  then have "0 \<le> Re (sum_list ys)"
    by (induction ys) simp_all
  with r ys show ?thesis by simp
qed

lemma py_sqrt_re_inner: "py_sqrt (re_inner w w) = Inr (map_option sqrt (re_inner w w))"
  using re_inner_nonneg [of w] by (cases "re_inner w w") (auto simp: py_sqrt_def)

lemma np_vdot_re: "length x = length y \<Longrightarrow> np_vdot x y = Inr z \<Longrightarrow> c_real z = re_inner x y"
  by (auto simp: np_vdot_def re_inner_def)

lemma lanczos_step_eq:
  assumes A: "acts_as A Af"
    and k: "k < length (alpha s)" "k + 1 < length (beta s)"
    and v: "length (vk s ! k) = lin_shape0 A" and vp: "length (vk s ! (k - 1)) = lin_shape0 A"
  shows "lanczos_step A k s =
    (let w = map2 c_sub (Af (vk s ! k)) (map (c_scale (beta s ! k)) (vk s ! (k - 1)));
         a = re_inner w (vk s ! k);
         w' = map2 c_sub w (map (c_scale a) (vk s ! k));
         b' = map_option sqrt (re_inner w' w')
     in Inr \<lparr>alpha = (alpha s)[k := a], beta = (beta s)[k + 1 := b'],
             vk = (vk s)[k + 1 := map (\<lambda>z. c_div z b') w'],
             wld = (wld s)\<lparr>dot_calls := dot_calls (wld s) + 1\<rparr>\<rparr>)"
proof -
  let ?d = "lin_shape0 A"
  let ?v = "vk s ! k" and ?vp = "vk s ! (k - 1)"
  let ?w = "map2 c_sub (Af ?v) (map (c_scale (beta s ! k)) ?vp)"
  let ?a = "re_inner ?w ?v"
  let ?w' = "map2 c_sub ?w (map (c_scale ?a) ?v)"
  let ?b' = "map_option sqrt (re_inner ?w' ?w')"
  from A v have dot: "lin_dot A ?v = Inr (Af ?v)" and lAv: "length (Af ?v) = ?d"
    by (simp_all add: acts_as_def)
  have lw: "length ?w = ?d" using lAv vp by simp
  have b1: "broadcast2 c_sub (Af ?v) (map (c_scale (beta s ! k)) ?vp) = Inr ?w"
    using lAv vp by (simp add: broadcast2_def)
  have vd1: "np_vdot ?w ?v = Inr (c_sum (map2 (\<lambda>a b. c_mul (map_option cnj a) b) ?w ?v))"
    using lw v by (simp add: np_vdot_def)
  have a: "c_real (c_sum (map2 (\<lambda>a b. c_mul (map_option cnj a) b) ?w ?v)) = ?a"
    by (simp add: re_inner_def)
  have nth_a: "(alpha s)[k := ?a] ! k = ?a" using k by simp
  have ip: "inplace_sub ?w (map (c_scale ?a) ?v) = Inr ?w'"
    using lw v by (simp add: inplace_sub_def broadcast_to_def)
  have lw': "length ?w' = ?d" using lw v by simp
  have vd2: "np_vdot ?w' ?w' = Inr (c_sum (map2 (\<lambda>a b. c_mul (map_option cnj a) b) ?w' ?w'))"
    by (simp add: np_vdot_def)
  have sq: "py_sqrt (c_real (c_sum (map2 (\<lambda>a b. c_mul (map_option cnj a) b) ?w' ?w'))) = Inr ?b'"
    using py_sqrt_re_inner [of ?w'] by (simp add: re_inner_def)
  have nth_b: "(beta s)[k + 1 := ?b'] ! (k + 1) = ?b'" using k by simp
  have bt: "broadcast_to ?d (map (\<lambda>z. c_div z ?b') ?w') = Inr (map (\<lambda>z. c_div z ?b') ?w')"
    using lw' by (simp add: broadcast_to_def)
  show ?thesis
    unfolding lanczos_step_def Let_def
    by (simp only: dot b1 vd1 a nth_a ip vd2 sq nth_b bt sum.case)
qed

lemma krylov_lengths:
  assumes "\<forall>v. length v = d \<longrightarrow> length (Af v) = d" "length v1 = d"
  shows "length (fst (krylov Af v1 n)) = d \<and> length (fst (snd (krylov Af v1 n))) = d"
proof (induction n)
  case 0
  then show ?case using assms by simp
next
  case (Suc n)
  obtain vp v b where kr: "krylov Af v1 n = (vp, v, b)" by (cases "krylov Af v1 n")
  with Suc have "length vp = d" "length v = d" by simp_all
  with assms(1) kr show ?case by (simp add: Let_def)
qed

lemma lanczos_loop_inv:
  assumes A: "acts_as A Af" and v1: "length v1 = lin_shape0 A" and n: "n \<le> M"
    and s0: "loop_inv Af v1 M w 0 s0"
  shows "\<exists>s. lanczos_loop A [1..<n + 1] s0 = Inr s \<and> loop_inv Af v1 M w n s"
  using n
proof (induction n)
  case 0
  then show ?case using s0 by simp
next
  case (Suc n)
  then obtain s where run: "lanczos_loop A [1..<n + 1] s0 = Inr s"
    and inv: "loop_inv Af v1 M w n s" by auto
  let ?k = "Suc n"
  obtain vp v b where kr: "krylov Af v1 n = (vp, v, b)" by (cases "krylov Af v1 n")
  have len: "\<forall>u. length u = lin_shape0 A \<longrightarrow> length (Af u) = lin_shape0 A"
    using A by (simp add: acts_as_def)
  from krylov_lengths [OF len v1, where n = n] kr
  have lv: "length vp = lin_shape0 A" "length v = lin_shape0 A" by simp_all
  from inv kr have cols: "vk s ! n = vp" "vk s ! ?k = v"
    and bk: "beta s ! ?k = b"
    and ls: "length (alpha s) = M + 1" "length (beta s) = M + 2" "length (vk s) = M + 2"
    and ws: "wld s = w\<lparr>dot_calls := dot_calls w + n\<rparr>"
    by (simp_all add: loop_inv_def rec_beta_def)
  let ?w = "map2 c_sub (Af v) (map (c_scale b) vp)"
  let ?a = "re_inner ?w v"
  let ?w' = "map2 c_sub ?w (map (c_scale ?a) v)"
  let ?b' = "map_option sqrt (re_inner ?w' ?w')"
  let ?s' = "\<lparr>alpha = (alpha s)[?k := ?a], beta = (beta s)[?k + 1 := ?b'],
             vk = (vk s)[?k + 1 := map (\<lambda>z. c_div z ?b') ?w'],
             wld = (wld s)\<lparr>dot_calls := dot_calls (wld s) + 1\<rparr>\<rparr>"
  have step: "lanczos_step A ?k s = Inr ?s'"
    using lanczos_step_eq [OF A, where k = ?k and s = s] Suc.prems ls lv cols bk by (simp add: Let_def)
  have kr': "krylov Af v1 ?k = (v, map (\<lambda>z. c_div z ?b') ?w', ?b')"
    using kr by (simp add: Let_def)
  have ra: "rec_alpha Af v1 ?k = ?a" using kr by (simp add: rec_alpha_def)
  have rb: "rec_beta Af v1 (?k + 1) = ?b'" using kr' by (simp add: rec_beta_def)
  have inv': "loop_inv Af v1 M w ?k ?s'"
    unfolding loop_inv_def
  proof (intro conjI allI impI)
    show "length (alpha ?s') = M + 1" "length (beta ?s') = M + 2" "length (vk ?s') = M + 2"
      using ls by simp_all
    show "alpha ?s' ! i = rec_alpha Af v1 i" if "1 \<le> i \<and> i \<le> ?k" for i
    proof (cases "i = ?k")
      case True
      then show ?thesis using ra ls Suc.prems by simp
    next
      case False
      with that inv show ?thesis by (simp add: loop_inv_def)
    qed
    show "beta ?s' ! i = rec_beta Af v1 i" if "1 \<le> i \<and> i \<le> ?k + 1" for i
    proof (cases "i = ?k + 1")
      case True
      then show ?thesis using rb ls Suc.prems by simp
    next
      case False
      with that inv show ?thesis by (simp add: loop_inv_def)
    qed
    show "vk ?s' ! ?k = fst (krylov Af v1 ?k)"
      using cols kr' by simp
    show "vk ?s' ! (?k + 1) = fst (snd (krylov Af v1 ?k))"
      using kr' ls Suc.prems by simp
    show "wld ?s' = w\<lparr>dot_calls := dot_calls w + ?k\<rparr>"
      using ws by simp
  qed
  have "[1..<?k + 1] = [1..<n + 1] @ [?k]" by simp
  then have "lanczos_loop A [1..<?k + 1] s0 = Inr ?s'"
    using run step by (simp only: lanczos_loop_append) simp
  with inv' show ?case by blast
qed

lemma nth_map_upt_from:
  "i < n - a \<Longrightarrow> map f [a..<n] ! i = f (a + i)"
  by (simp del: upt_Suc)

lemma construct_from_start:
  assumes A: "acts_as A Af" and col: "length col = lin_shape0 A"
    and st: "start_vector stream (lin_shape0 A) v0 w = Inr (col, w1)"
  shows "construct_lanczos_tridiag stream junk A v0 M w =
     Inr ((map (rec_alpha Af (unit_normalized col)) [1..<M + 1],
           map (rec_beta Af (unit_normalized col)) [2..<M + 1]),
          w1\<lparr>dot_calls := dot_calls w1 + M\<rparr>)"
proof -
  let ?d = "lin_shape0 A"
  let ?v1 = "unit_normalized col"
  let ?vk0 = "(replicate (M + 2) (replicate ?d junk))[0 := replicate ?d (Some 0)]"
  let ?s0 = "\<lparr>alpha = replicate (M + 1) (Some 0), beta = replicate (M + 2) (Some 0),
              vk = ?vk0[1 := ?v1], wld = w1\<rparr>"
  have lv1: "length ?v1 = ?d" using col by (simp add: unit_normalized_def)
  have vd: "np_vdot col col = Inr (c_sum (map2 (\<lambda>a b. c_mul (map_option cnj a) b) col col))"
    by (simp add: np_vdot_def)
  have sq: "py_sqrt (c_real (c_sum (map2 (\<lambda>a b. c_mul (map_option cnj a) b) col col)))
      = Inr (map_option sqrt (re_inner col col))"
    using py_sqrt_re_inner [of col] by (simp add: re_inner_def)
  have nrm: "map (\<lambda>z. c_div z (map_option sqrt (re_inner col col))) col = ?v1"
    by (simp add: unit_normalized_def)
  have inv0: "loop_inv Af ?v1 M w1 0 ?s0"
    using lv1 by (simp add: loop_inv_def rec_beta_def)
  from lanczos_loop_inv [OF A lv1 le_refl inv0] obtain s
    where run: "lanczos_loop A [1..<M + 1] ?s0 = Inr s" and inv: "loop_inv Af ?v1 M w1 M s"
    by blast
  have al: "drop 1 (alpha s) = map (rec_alpha Af ?v1) [1..<M + 1]"
  proof (rule nth_equalityI)
    show "length (drop 1 (alpha s)) = length (map (rec_alpha Af ?v1) [1..<M + 1])"
      using inv by (simp add: loop_inv_def del: upt_Suc)
    fix i assume "i < length (drop 1 (alpha s))"
    then have i: "i < M" using inv by (simp add: loop_inv_def)
    then have "map (rec_alpha Af ?v1) [1..<M + 1] ! i = rec_alpha Af ?v1 (1 + i)"
      by (intro nth_map_upt_from) simp
    moreover have "drop 1 (alpha s) ! i = alpha s ! (1 + i)"
      using i inv by (simp add: loop_inv_def)
    moreover have "alpha s ! (1 + i) = rec_alpha Af ?v1 (1 + i)"
      using i inv by (simp add: loop_inv_def)
    ultimately show "drop 1 (alpha s) ! i = map (rec_alpha Af ?v1) [1..<M + 1] ! i"
      by simp
  qed
  have be: "butlast (drop 2 (beta s)) = map (rec_beta Af ?v1) [2..<M + 1]"
  proof (rule nth_equalityI)
    show "length (butlast (drop 2 (beta s))) = length (map (rec_beta Af ?v1) [2..<M + 1])"
      using inv by (simp add: loop_inv_def del: upt_Suc)
    fix i assume "i < length (butlast (drop 2 (beta s)))"
    then have i: "i < M - 1" using inv by (simp add: loop_inv_def)
    then have "map (rec_beta Af ?v1) [2..<M + 1] ! i = rec_beta Af ?v1 (2 + i)"
      by (intro nth_map_upt_from) simp
    moreover have "butlast (drop 2 (beta s)) ! i = beta s ! (2 + i)"
      using i inv by (simp add: loop_inv_def nth_butlast)
    moreover have "beta s ! (2 + i) = rec_beta Af ?v1 (2 + i)"
      using i inv by (simp add: loop_inv_def)
    ultimately show "butlast (drop 2 (beta s)) ! i = map (rec_beta Af ?v1) [2..<M + 1] ! i"
      by simp
  qed
  have ws: "wld s = w1\<lparr>dot_calls := dot_calls w1 + M\<rparr>"
    using inv by (simp add: loop_inv_def)
  show ?thesis
    unfolding construct_lanczos_tridiag_def Let_def
    by (simp only: st sum.case prod.case vd sq nrm run al be ws)
qed

lemma start_vector_Some:
  "length v = d \<Longrightarrow> start_vector stream d (Some v) w = Inr (map Some v, w)"
  by (simp add: start_vector_def broadcast_to_def)

lemma start_vector_None:
  "start_vector stream d None w
   = Inr (random_start stream d w, w\<lparr>rng_pos := rng_pos w + 2 * d\<rparr>)"
proof -
  have "map2 c_add (map (\<lambda>x. Some (complex_of_real x)) (map (\<lambda>i. stream (rng_pos w + i)) [0..<d]))
          (map (\<lambda>x. c_mul (Some \<i>) (Some (complex_of_real x)))
             (map (\<lambda>i. stream (rng_pos w + d + i)) [0..<d]))
        = random_start stream d w"
    by (rule nth_equalityI)
       (simp_all add: random_start_def c_add_def c_mul_def lift2_def complex_eq_iff)
  then show ?thesis
    by (simp add: start_vector_def randn_def Let_def mult_2)
qed

text \<open>
  Claim C5.  For an operator \<open>A\<close> of dimension \<open>d\<close> whose \<^verbatim>\<open>dot\<close> acts as \<open>Af\<close>, and
  \<open>M \<ge> 1\<close>, \<^verbatim>\<open>construct_lanczos_tridiag\<close> returns \<open>alpha\<close> of length \<open>M\<close> and \<open>beta\<close> of
  length \<open>M - 1\<close>: \<open>alpha\<^sub>1 .. alpha\<^sub>M\<close> and \<open>beta\<^sub>2 .. beta\<^sub>M\<close> of the recurrence that
  starts from the zero vector, \<open>beta\<^sub>1 = 0\<close> and the unit-normalised start vector.  The
  start vector is \<open>v0\<close> when it is given (of length \<open>d\<close>); otherwise its real parts are
  one draw of \<open>d\<close> samples of the generator and its imaginary parts the next draw.  The
  call makes \<open>M\<close> calls of \<^verbatim>\<open>A.dot\<close>.
\<close>

theorem construct_lanczos_tridiag_recurrence:
  "acts_as A Af \<and> 1 \<le> M \<longrightarrow>
     (length v = lin_shape0 A \<longrightarrow>
        (\<exists>al be. construct_lanczos_tridiag stream junk A (Some v) M w =
            Inr ((al, be), w\<lparr>dot_calls := dot_calls w + M\<rparr>) \<and>
          length al = M \<and> length be = M - 1 \<and>
          al = map (rec_alpha Af (unit_normalized (map Some v))) [1..<M + 1] \<and>
          be = map (rec_beta Af (unit_normalized (map Some v))) [2..<M + 1])) \<and>
     (\<exists>al be. construct_lanczos_tridiag stream junk A None M w =
            Inr ((al, be), w\<lparr>rng_pos := rng_pos w + 2 * lin_shape0 A,
                             dot_calls := dot_calls w + M\<rparr>) \<and>
          length al = M \<and> length be = M - 1 \<and>
          al = map (rec_alpha Af (unit_normalized (random_start stream (lin_shape0 A) w)))
                 [1..<M + 1] \<and>
          be = map (rec_beta Af (unit_normalized (random_start stream (lin_shape0 A) w)))
                 [2..<M + 1])"
proof (intro impI conjI)
  assume h: "acts_as A Af \<and> 1 \<le> M"
  have l: "length (map f [1..<M + 1]) = M" "length (map g [2..<M + 1]) = M - 1"
    for f g :: "nat \<Rightarrow> fl"
    by (simp_all del: upt_Suc)
  {
    assume v: "length v = lin_shape0 A"
    have "construct_lanczos_tridiag stream junk A (Some v) M w =
      Inr ((map (rec_alpha Af (unit_normalized (map Some v))) [1..<M + 1],
            map (rec_beta Af (unit_normalized (map Some v))) [2..<M + 1]),
           w\<lparr>dot_calls := dot_calls w + M\<rparr>)"
      using h v by (intro construct_from_start start_vector_Some) simp_all
    then show "\<exists>al be. construct_lanczos_tridiag stream junk A (Some v) M w =
            Inr ((al, be), w\<lparr>dot_calls := dot_calls w + M\<rparr>) \<and>
          length al = M \<and> length be = M - 1 \<and>
          al = map (rec_alpha Af (unit_normalized (map Some v))) [1..<M + 1] \<and>
          be = map (rec_beta Af (unit_normalized (map Some v))) [2..<M + 1]"
      using l by blast
  }
  have "construct_lanczos_tridiag stream junk A None M w =
      Inr ((map (rec_alpha Af (unit_normalized (random_start stream (lin_shape0 A) w))) [1..<M + 1],
            map (rec_beta Af (unit_normalized (random_start stream (lin_shape0 A) w))) [2..<M + 1]),
           (w\<lparr>rng_pos := rng_pos w + 2 * lin_shape0 A\<rparr>)
             \<lparr>dot_calls := dot_calls (w\<lparr>rng_pos := rng_pos w + 2 * lin_shape0 A\<rparr>) + M\<rparr>)"
    using h by (intro construct_from_start start_vector_None) (simp_all add: random_start_def)
  then show "\<exists>al be. construct_lanczos_tridiag stream junk A None M w =
            Inr ((al, be), w\<lparr>rng_pos := rng_pos w + 2 * lin_shape0 A,
                             dot_calls := dot_calls w + M\<rparr>) \<and>
          length al = M \<and> length be = M - 1 \<and>
          al = map (rec_alpha Af (unit_normalized (random_start stream (lin_shape0 A) w)))
                 [1..<M + 1] \<and>
          be = map (rec_beta Af (unit_normalized (random_start stream (lin_shape0 A) w)))
                 [2..<M + 1]"
    using l by simp
qed

lemmas lanczos_eval =
  construct_lanczos_tridiag_def start_vector_def broadcast_to_def np_vdot_def
  c_sum_def c_add_def c_mul_def lift2_def py_sqrt_def c_real_def c_div_def upt_rec lanczos_step_def
  broadcast2_def c_scale_def c_sub_def inplace_sub_def Let_def eval_nat_numeral

theorem construct_lanczos_tridiag_recurrence_witness:
  "acts_as \<lparr>lin_shape0 = 2, lin_dot = (\<lambda>v. Inr (rev v))\<rparr> rev \<and> (1 :: nat) \<le> 2 \<and>
   length [1 :: complex, 0] = lin_shape0 \<lparr>lin_shape0 = 2, lin_dot = (\<lambda>v. Inr (rev v))\<rparr> \<and>
   construct_lanczos_tridiag (\<lambda>i. 0) None \<lparr>lin_shape0 = 2, lin_dot = (\<lambda>v. Inr (rev v))\<rparr>
       (Some [1, 0]) 2 \<lparr>rng_pos = 0, dot_calls = 0\<rparr>
     = Inr (([Some 0, Some 0], [Some 1]), \<lparr>rng_pos = 0, dot_calls = 2\<rparr>) \<and>
   map (rec_alpha rev (unit_normalized (map Some [1, 0]))) [1..<2 + 1] = [Some 0, Some 0] \<and>
   map (rec_beta rev (unit_normalized (map Some [1, 0]))) [2..<2 + 1] = [Some 1]"
proof -
  let ?A = "\<lparr>lin_shape0 = 2, lin_dot = (\<lambda>v. Inr (rev v))\<rparr>"
  let ?w = "\<lparr>rng_pos = 0, dot_calls = 0\<rparr>"
  have h: "acts_as ?A rev \<and> (1 :: nat) \<le> 2" by (simp add: acts_as_def)
  have lv: "length [1 :: complex, 0] = lin_shape0 ?A" by simp
  have c: "construct_lanczos_tridiag (\<lambda>i. 0) None ?A (Some [1, 0]) 2 ?w
     = Inr (([Some 0, Some 0], [Some 1]), \<lparr>rng_pos = 0, dot_calls = 2\<rparr>)"
    by (simp add: lanczos_eval)
  from construct_lanczos_tridiag_recurrence [of ?A rev 2 "[1, 0]" "\<lambda>i. 0" None ?w] h lv
  obtain al be where r: "construct_lanczos_tridiag (\<lambda>i. 0) None ?A (Some [1, 0]) 2 ?w =
            Inr ((al, be), ?w\<lparr>dot_calls := dot_calls ?w + 2\<rparr>)"
      "al = map (rec_alpha rev (unit_normalized (map Some [1, 0]))) [1..<2 + 1]"
      "be = map (rec_beta rev (unit_normalized (map Some [1, 0]))) [2..<2 + 1]"
    by blast
  from r(1) c have "al = [Some 0, Some 0]" "be = [Some 1]" by simp_all
  with r(2,3) h lv c show ?thesis by (simp only: simp_thms)
qed

lemma c_sum_None: "None \<in> set zs \<Longrightarrow> c_sum zs = None"
proof (rule ccontr)
  assume n: "None \<in> set zs" and "c_sum zs \<noteq> None"
  then obtain s where "foldl c_add (Some 0) zs = Some s" by (auto simp: c_sum_def)
  from foldl_c_add_Some [OF this] n show False by auto
qed

lemma re_inner_nan:
  assumes "length w = d" "0 < d"
  shows "re_inner w (replicate d None) = None"
proof -
  have "map2 (\<lambda>a b. c_mul (map_option cnj a) b) w (replicate (length w) None)
        = replicate (length w) None"
    by (induction w) (simp_all add: c_mul_def lift2_def split: option.splits)
  with assms have "None \<in> set (map2 (\<lambda>a b. c_mul (map_option cnj a) b) w (replicate d None))"
    by auto
  then show ?thesis by (simp add: re_inner_def c_sum_None c_real_def)
qed

lemma map2_c_sub_nan: "length w = d \<Longrightarrow> map2 c_sub w (replicate d None) = replicate d None"
proof -
  have "map2 c_sub w (replicate (length w) None) = replicate (length w) None"
    by (induction w) (simp_all add: c_sub_def lift2_def split: option.splits)
  then show "length w = d \<Longrightarrow> map2 c_sub w (replicate d None) = replicate d None" by simp
qed

lemma krylov_nan_step:
  assumes len: "\<forall>v. length v = d \<longrightarrow> length (Af v) = d" and v1: "length v1 = d" and d: "0 < d"
    and nan: "fst (snd (krylov Af v1 n)) = replicate d None"
  shows "rec_alpha Af v1 (Suc n) = None \<and> rec_beta Af v1 (Suc (Suc n)) = None \<and>
         fst (snd (krylov Af v1 (Suc n))) = replicate d None"
proof -
  obtain vp v b where kr: "krylov Af v1 n = (vp, v, b)" by (cases "krylov Af v1 n")
  with nan have v: "v = replicate d None" by simp
  from krylov_lengths [OF len v1, where n = n] kr have lvp: "length vp = d" by simp
  let ?w = "map2 c_sub (Af v) (map (c_scale b) vp)"
  have lw: "length ?w = d" using len v lvp by simp
  have a: "re_inner ?w v = None" using re_inner_nan [OF lw d] v by simp
  define w' where "w' = map2 c_sub ?w (map (c_scale (re_inner ?w v)) v)"
  define b' where "b' = map_option sqrt (re_inner w' w')"
  have kS: "krylov Af v1 (Suc n) = (v, map (\<lambda>z. c_div z b') w', b')"
    using kr by (simp add: Let_def w'_def b'_def)
  have "map (c_scale None) v = replicate d None"
    using v by (simp add: c_scale_def lift2_def)
  then have w': "w' = replicate d None"
    using a lw by (simp add: map2_c_sub_nan w'_def)
  have "re_inner (replicate d None) (replicate d None) = None"
    by (rule re_inner_nan [OF _ d]) simp
  then have b': "b' = None" by (simp add: b'_def w')
  have nx: "map (\<lambda>z. c_div z b') w' = replicate d None"
    by (simp add: w' b' c_div_def)
  have "rec_alpha Af v1 (Suc n) = None" using kr a by (simp add: rec_alpha_def)
  moreover have "rec_beta Af v1 (Suc (Suc n)) = None" using kS b' by (simp add: rec_beta_def)
  moreover have "fst (snd (krylov Af v1 (Suc n))) = replicate d None"
    using kS nx by simp
  ultimately show ?thesis by simp
qed

lemma krylov_breakdown:
  assumes len: "\<forall>v. length v = d \<longrightarrow> length (Af v) = d" and v1: "length v1 = d"
    and zero: "rec_beta Af v1 (Suc (Suc n)) = Some 0"
  shows "fst (snd (krylov Af v1 (Suc n))) = replicate d None"
proof -
  obtain vp v b where kr: "krylov Af v1 n = (vp, v, b)" by (cases "krylov Af v1 n")
  from krylov_lengths [OF len v1, where n = n] kr have l: "length vp = d" "length v = d"
    by simp_all
  let ?w = "map2 c_sub (Af v) (map (c_scale b) vp)"
  let ?w' = "map2 c_sub ?w (map (c_scale (re_inner ?w v)) v)"
  have lw': "length ?w' = d" using len l by simp
  from zero kr have "map_option sqrt (re_inner ?w' ?w') = Some 0"
    by (simp add: rec_beta_def Let_def)
  then have "fst (snd (krylov Af v1 (Suc n))) = map (\<lambda>z. c_div z (Some 0)) ?w'"
    using kr by (simp add: Let_def)
  also have "\<dots> = replicate d None"
    using lw' by (intro nth_equalityI) (simp_all add: c_div_def split: option.splits)
  finally show ?thesis .
qed

lemma krylov_nan_after:
  assumes len: "\<forall>v. length v = d \<longrightarrow> length (Af v) = d" and v1: "length v1 = d" and d: "0 < d"
    and zero: "rec_beta Af v1 (Suc (Suc n)) = Some 0" and j: "Suc n \<le> j"
  shows "rec_alpha Af v1 (Suc j) = None \<and> rec_beta Af v1 (Suc (Suc j)) = None"
proof -
  have "fst (snd (krylov Af v1 j)) = replicate d None"
    using j
  proof (induction j)
    case 0
    then show ?case by simp
  next
    case (Suc j)
    show ?case
    proof (cases "Suc n = Suc j")
      case True
      with krylov_breakdown [OF len v1 zero] show ?thesis by simp
    next
      case False
      with Suc have "fst (snd (krylov Af v1 j)) = replicate d None" by simp
      from krylov_nan_step [OF len v1 d this] show ?thesis by simp
    qed
  qed
  from krylov_nan_step [OF len v1 d this] show ?thesis by simp
qed

lemma breakdown_entries:
  assumes len: "\<forall>v. length v = d \<longrightarrow> length (Af v) = d" and v1: "length v1 = d" and d: "0 < d"
    and al: "al = map (rec_alpha Af v1) [1..<M + 1]" and be: "be = map (rec_beta Af v1) [2..<M + 1]"
    and k: "1 \<le> k" "k < M" and zero: "be ! (k - 1) = Some 0" and j: "k \<le> j" "j < M"
  shows "al ! j = None \<and> (j < M - 1 \<longrightarrow> be ! j = None)"
proof -
  from k obtain n where n: "k = Suc n" by (cases k) auto
  have "be ! (k - 1) = rec_beta Af v1 (2 + (k - 1))"
    unfolding be using k by (intro nth_map_upt_from) simp
  with zero n have z: "rec_beta Af v1 (Suc (Suc n)) = Some 0" by simp
  from krylov_nan_after [OF len v1 d z] j n
  have nan: "rec_alpha Af v1 (Suc j) = None" "rec_beta Af v1 (Suc (Suc j)) = None" by simp_all
  have "al ! j = rec_alpha Af v1 (1 + j)"
    unfolding al using j by (intro nth_map_upt_from) simp
  moreover have "be ! j = rec_beta Af v1 (2 + j)" if "j < M - 1"
    unfolding be using that by (intro nth_map_upt_from) simp
  ultimately show ?thesis using nan by simp
qed

text \<open>
  Claim C6, as the code has it.  \<^verbatim>\<open>construct_lanczos_tridiag\<close> has no check for a
  Krylov breakdown and signals none.  For every operator of dimension \<open>d \<ge> 1\<close> whose
  \<^verbatim>\<open>dot\<close> returns vectors of length \<open>d\<close>, with a start vector \<open>v0\<close> of length \<open>d\<close> or a
  random one, it runs all \<open>M\<close> passes and returns \<open>alpha\<close> of length \<open>M\<close> and \<open>beta\<close> of
  length \<open>M - 1\<close>.  When pass \<open>k < M\<close> gives \<open>beta\<^sub>k\<^sub>+\<^sub>1 = 0\<close>, the division by it is \<open>0 / 0\<close>,
  and all later entries \<open>alpha\<^sub>k\<^sub>+\<^sub>1 .. alpha\<^sub>M\<close> and \<open>beta\<^sub>k\<^sub>+\<^sub>2 .. beta\<^sub>M\<close> returned are NaN.
  (In the lists returned, \<open>alpha\<^sub>j\<^sub>+\<^sub>1\<close> is \<open>al ! j\<close> and \<open>beta\<^sub>j\<^sub>+\<^sub>2\<close> is \<open>be ! j\<close>.)
\<close>

theorem breakdown_not_signalled:
  "acts_as A Af \<and> 0 < lin_shape0 A \<and> (v0 = None \<or> (\<exists>v. v0 = Some v \<and> length v = lin_shape0 A)) \<longrightarrow>
     (\<exists>al be w'. construct_lanczos_tridiag stream junk A v0 M w = Inr ((al, be), w') \<and>
        length al = M \<and> length be = M - 1 \<and>
        (\<forall>k j. 1 \<le> k \<and> k < M \<and> be ! (k - 1) = Some 0 \<and> k \<le> j \<and> j < M \<longrightarrow>
           al ! j = None \<and> (j < M - 1 \<longrightarrow> be ! j = None)))"
proof
  assume h: "acts_as A Af \<and> 0 < lin_shape0 A \<and>
    (v0 = None \<or> (\<exists>v. v0 = Some v \<and> length v = lin_shape0 A))"
  let ?d = "lin_shape0 A"
  from h obtain col w1 where st: "start_vector stream ?d v0 w = Inr (col, w1)"
    and col: "length col = ?d"
    using start_vector_None [of stream ?d w] start_vector_Some [of _ ?d stream w]
    by (auto simp: random_start_def)
  let ?v1 = "unit_normalized col"
  let ?al = "map (rec_alpha Af ?v1) [1..<M + 1]" and ?be = "map (rec_beta Af ?v1) [2..<M + 1]"
  from h have A: "acts_as A Af" and d: "0 < ?d" by simp_all
  have run: "construct_lanczos_tridiag stream junk A v0 M w
      = Inr ((?al, ?be), w1\<lparr>dot_calls := dot_calls w1 + M\<rparr>)"
    by (rule construct_from_start [OF A col st])
  have len: "\<forall>v. length v = ?d \<longrightarrow> length (Af v) = ?d"
    using A by (simp add: acts_as_def)
  have lv1: "length ?v1 = ?d" using col by (simp add: unit_normalized_def)
  have nan: "\<forall>k j. 1 \<le> k \<and> k < M \<and> ?be ! (k - 1) = Some 0 \<and> k \<le> j \<and> j < M \<longrightarrow>
           ?al ! j = None \<and> (j < M - 1 \<longrightarrow> ?be ! j = None)"
    using breakdown_entries [OF len lv1 d refl refl] by blast
  have l: "length ?al = M" "length ?be = M - 1" by (simp_all del: upt_Suc)
  show "\<exists>al be w'. construct_lanczos_tridiag stream junk A v0 M w = Inr ((al, be), w') \<and>
        length al = M \<and> length be = M - 1 \<and>
        (\<forall>k j. 1 \<le> k \<and> k < M \<and> be ! (k - 1) = Some 0 \<and> k \<le> j \<and> j < M \<longrightarrow>
           al ! j = None \<and> (j < M - 1 \<longrightarrow> be ! j = None))"
    apply (rule exI [where x = ?al])
    apply (rule exI [where x = ?be])
    apply (rule exI [where x = "w1\<lparr>dot_calls := dot_calls w1 + M\<rparr>"])
    apply (rule conjI, rule run)
    apply (rule conjI, rule l(1))
    apply (rule conjI, rule l(2))
    apply (rule nan)
    done
qed

theorem breakdown_not_signalled_counterexample:
  "construct_lanczos_tridiag (\<lambda>i. 0) None \<lparr>lin_shape0 = 2, lin_dot = (\<lambda>v. Inr v)\<rparr>
       (Some [1, 0]) 2 \<lparr>rng_pos = 0, dot_calls = 0\<rparr>
     = Inr (([Some 1, None], [Some 0]), \<lparr>rng_pos = 0, dot_calls = 2\<rparr>)"
  by (simp add: lanczos_eval)

theorem breakdown_not_signalled_witness:
  "acts_as \<lparr>lin_shape0 = 2, lin_dot = (\<lambda>v. Inr v)\<rparr> (\<lambda>v. v) \<and>
   0 < lin_shape0 \<lparr>lin_shape0 = 2, lin_dot = (\<lambda>v. Inr v)\<rparr> \<and>
   length [1 :: complex, 0] = lin_shape0 \<lparr>lin_shape0 = 2, lin_dot = (\<lambda>v. Inr v)\<rparr> \<and>
   construct_lanczos_tridiag (\<lambda>i. 0) None \<lparr>lin_shape0 = 2, lin_dot = (\<lambda>v. Inr v)\<rparr>
       (Some [1, 0]) 3 \<lparr>rng_pos = 0, dot_calls = 0\<rparr>
     = Inr (([Some 1, None, None], [Some 0, None]), \<lparr>rng_pos = 0, dot_calls = 3\<rparr>) \<and>
   (1 :: nat) \<le> 1 \<and> (1 :: nat) < 3 \<and> [Some (0 :: real), None] ! (1 - 1) = Some 0 \<and>
   [Some (1 :: real), None, None] ! 1 = None \<and> [Some (1 :: real), None, None] ! 2 = None \<and>
   [Some (0 :: real), None] ! 1 = None"
proof -
  let ?A = "\<lparr>lin_shape0 = 2, lin_dot = (\<lambda>v. Inr v)\<rparr>"
  let ?w = "\<lparr>rng_pos = 0, dot_calls = 0\<rparr>"
  have h: "acts_as ?A (\<lambda>v. v) \<and> 0 < lin_shape0 ?A \<and>
      (Some [1 :: complex, 0] = None \<or> (\<exists>v. Some [1, 0] = Some v \<and> length v = lin_shape0 ?A))"
    by (simp add: acts_as_def)
  have c: "construct_lanczos_tridiag (\<lambda>i. 0) None ?A (Some [1, 0]) 3 ?w
     = Inr (([Some 1, None, None], [Some 0, None]), \<lparr>rng_pos = 0, dot_calls = 3\<rparr>)"
    by (simp add: lanczos_eval)
  from breakdown_not_signalled [of ?A "\<lambda>v. v" "Some [1, 0]" "\<lambda>i. 0" None 3 ?w,
      THEN mp, OF h]
  obtain al be w' where r:
    "construct_lanczos_tridiag (\<lambda>i. 0) None ?A (Some [1, 0]) 3 ?w = Inr ((al, be), w')"
    "\<forall>k j. 1 \<le> k \<and> k < 3 \<and> be ! (k - 1) = Some 0 \<and> k \<le> j \<and> j < 3 \<longrightarrow>
           al ! j = None \<and> (j < 3 - 1 \<longrightarrow> be ! j = None)"
    by blast
  from r(1) c have e: "al = [Some 1, None, None]" "be = [Some 0, None]" by simp_all
  from r(2) [rule_format, of 1 1] r(2) [rule_format, of 1 2] e
  have "[Some (1 :: real), None, None] ! 1 = None" "[Some (1 :: real), None, None] ! 2 = None"
    "[Some (0 :: real), None] ! 1 = None"
    by simp_all
  with h c show ?thesis by simp
qed

lemma lanczos_step_calls:
  "lanczos_step A k s = Inr s' \<Longrightarrow> wld s' = (wld s)\<lparr>dot_calls := dot_calls (wld s) + 1\<rparr>"
  by (auto simp: lanczos_step_def Let_def split: sum.splits)

lemma lanczos_loop_calls:
  "lanczos_loop A ks s = Inr s' \<Longrightarrow>
   wld s' = (wld s)\<lparr>dot_calls := dot_calls (wld s) + length ks\<rparr>"
proof (induction ks arbitrary: s)
  case Nil
  then show ?case by simp
next
  case (Cons k ks)
  then obtain s1 where 1: "lanczos_step A k s = Inr s1" and 2: "lanczos_loop A ks s1 = Inr s'"
    by (auto split: sum.splits)
  from lanczos_step_calls [OF 1] Cons.IH [OF 2] show ?case by simp
qed

lemma start_vector_calls:
  "start_vector stream d v0 w = Inr (col, w1) \<Longrightarrow> dot_calls w1 = dot_calls w"
  by (auto simp: start_vector_def randn_def Let_def split: option.splits sum.splits)

lemma construct_calls:
  assumes "construct_lanczos_tridiag stream junk A v0 M w = Inr (r, w')"
  shows "dot_calls w' = dot_calls w + M"
proof -
  from assms obtain col w1 nrm s x
    where st: "start_vector stream (lin_shape0 A) v0 w = Inr (col, w1)"
      and run: "lanczos_loop A [1..<M + 1]
                  \<lparr>alpha = replicate (M + 1) (Some 0), beta = replicate (M + 2) (Some 0),
                   vk = ((replicate (M + 2) (replicate (lin_shape0 A) junk))
                           [0 := replicate (lin_shape0 A) (Some 0)])
                          [1 := map (\<lambda>z. c_div z nrm) col], wld = w1\<rparr> = Inr s"
      and w': "w' = wld s"
    unfolding construct_lanczos_tridiag_def Let_def
    by (auto split: sum.splits prod.splits)
  from lanczos_loop_calls [OF run] start_vector_calls [OF st] w' show ?thesis
    by (simp del: upt_Suc)
qed

lemma eig_term_eq:
  "map_option complex_of_real (lift2 (*) x x) = map_option (\<lambda>x. of_real (\<bar>x\<bar> ^ 2)) x"
  by (cases x) (simp_all add: lift2_def power2_eq_square)

lemma eig_terms_eq:
  assumes "\<forall>i \<in> set ns. i < length el \<and> i < length (ev ! 0)" "ev \<noteq> []"
  shows "eig_terms fn el ev ns acc =
     Inr (foldl c_add acc
            (map (\<lambda>i. c_mul (fn (el ! i)) (map_option (\<lambda>x. of_real (\<bar>x\<bar> ^ 2)) (ev ! 0 ! i))) ns))"
  using assms by (induction ns arbitrary: acc) (simp_all add: eig_term_eq)

lemma eig_terms_quadrature:
  assumes "has_eigenpairs M (el, ev)"
  shows "eig_terms fn el ev [0..<M] acc = Inr (foldl c_add acc (quadrature_terms fn M (el, ev)))"
  using assms eig_terms_eq [of "[0..<M]" el ev fn acc]
  by (simp add: has_eigenpairs_def quadrature_terms_def)

lemma random_start_rng:
  "rng_pos w = rng_pos w' \<Longrightarrow> random_start stream d w = random_start stream d w'"
  by (simp add: random_start_def)

lemma restart_vector_shift:
  assumes "rng_pos w1 = rng_pos w + (if v0 = None then 2 * d else 0)"
  shows "restart_vector stream d v0 w1 r = restart_vector stream d v0 w (Suc r)"
proof (cases v0)
  case None
  with assms have "random_start stream d (w1\<lparr>rng_pos := rng_pos w1 + 2 * d * r\<rparr>)
      = random_start stream d (w\<lparr>rng_pos := rng_pos w + 2 * d * Suc r\<rparr>)"
    by (intro random_start_rng) simp
  with None show ?thesis by (simp add: restart_vector_def)
next
  case (Some v)
  then show ?thesis by (simp add: restart_vector_def)
qed

lemma construct_restart:
  assumes A: "acts_as A Af"
    and v0: "v0 = None \<or> (\<exists>v. v0 = Some v \<and> length v = lin_shape0 A)"
  shows "construct_lanczos_tridiag stream junk A v0 M w =
     Inr ((map (rec_alpha Af (restart_vector stream (lin_shape0 A) v0 w 0)) [1..<M + 1],
           map (rec_beta Af (restart_vector stream (lin_shape0 A) v0 w 0)) [2..<M + 1]),
          w\<lparr>rng_pos := rng_pos w + (if v0 = None then 2 * lin_shape0 A else 0),
            dot_calls := dot_calls w + M\<rparr>)"
proof (cases v0)
  case None
  have r: "random_start stream (lin_shape0 A) (w\<lparr>rng_pos := rng_pos w + 2 * lin_shape0 A * 0\<rparr>)
      = random_start stream (lin_shape0 A) w"
    by (intro random_start_rng) simp
  have "construct_lanczos_tridiag stream junk A None M w =
      Inr ((map (rec_alpha Af (unit_normalized (random_start stream (lin_shape0 A) w))) [1..<M + 1],
            map (rec_beta Af (unit_normalized (random_start stream (lin_shape0 A) w))) [2..<M + 1]),
           (w\<lparr>rng_pos := rng_pos w + 2 * lin_shape0 A\<rparr>)
             \<lparr>dot_calls := dot_calls (w\<lparr>rng_pos := rng_pos w + 2 * lin_shape0 A\<rparr>) + M\<rparr>)"
    using A by (intro construct_from_start start_vector_None) (simp_all add: random_start_def)
  with None show ?thesis by (simp add: restart_vector_def r del: upt_Suc)
next
  case (Some v)
  with v0 have lv: "length v = lin_shape0 A" by simp
  have "construct_lanczos_tridiag stream junk A (Some v) M w =
      Inr ((map (rec_alpha Af (unit_normalized (map Some v))) [1..<M + 1],
            map (rec_beta Af (unit_normalized (map Some v))) [2..<M + 1]),
           w\<lparr>dot_calls := dot_calls w + M\<rparr>)"
    using A lv by (intro construct_from_start start_vector_Some) simp_all
  with Some show ?thesis by (simp add: restart_vector_def del: upt_Suc)
qed

lemma lanczos_tridiag_eig_band:
  "0 < M \<Longrightarrow>
   lanczos_tridiag_eig lapack junk2 (map (rec_alpha Af v1) [1..<M + 1])
       (map (rec_beta Af v1) [2..<M + 1])
     = eig_banded lapack (tridiagonal_band Af v1 M junk2)"
  by (simp add: lanczos_tridiag_eig_def broadcast_to_def tridiagonal_band_def del: upt_Suc)

lemma gen_vals_sum:
  assumes A: "acts_as A Af" and M: "0 < M"
    and v0: "v0 = None \<or> (\<exists>v. v0 = Some v \<and> length v = lin_shape0 A)"
    and len: "length ps = R"
    and eig: "\<forall>r < R. eig_banded lapack
                 (tridiagonal_band Af (restart_vector stream (lin_shape0 A) v0 w r) M junk2)
                   = Inr (ps ! r) \<and> has_eigenpairs M (ps ! r)"
  shows "gen_vals stream junk junk2 lapack A fn M v0 R acc w =
     Inr (foldl c_add acc (concat (map (quadrature_terms fn M) ps)),
          w\<lparr>rng_pos := rng_pos w + (if v0 = None then 2 * lin_shape0 A * R else 0),
            dot_calls := dot_calls w + M * R\<rparr>)"
  using len eig
proof (induction R arbitrary: acc w ps)
  case 0
  then show ?case by simp
next
  case (Suc R)
  let ?d = "lin_shape0 A"
  from Suc.prems(1) obtain p ps' where ps: "ps = p # ps'" and len': "length ps' = R"
    by (cases ps) auto
  obtain el ev where p: "p = (el, ev)" by (cases p)
  define w1 where "w1 = w\<lparr>rng_pos := rng_pos w + (if v0 = None then 2 * ?d else 0),
            dot_calls := dot_calls w + M\<rparr>"
  from Suc.prems(2) [rule_format, of 0] ps p
  have e0: "eig_banded lapack (tridiagonal_band Af (restart_vector stream ?d v0 w 0) M junk2)
        = Inr (el, ev)" and h0: "has_eigenpairs M (el, ev)"
    by simp_all
  have c: "construct_lanczos_tridiag stream junk A v0 M w =
     Inr ((map (rec_alpha Af (restart_vector stream ?d v0 w 0)) [1..<M + 1],
           map (rec_beta Af (restart_vector stream ?d v0 w 0)) [2..<M + 1]), w1)"
    unfolding w1_def by (rule construct_restart [OF A v0])
  have sh: "restart_vector stream ?d v0 w1 r = restart_vector stream ?d v0 w (Suc r)" for r
    by (rule restart_vector_shift) (simp add: w1_def)
  have eig': "\<forall>r < R. eig_banded lapack
                 (tridiagonal_band Af (restart_vector stream ?d v0 w1 r) M junk2)
                   = Inr (ps' ! r) \<and> has_eigenpairs M (ps' ! r)"
  proof (intro allI impI)
    fix r assume "r < R"
    then have "Suc r < Suc R" by simp
    from Suc.prems(2) [rule_format, OF this] ps
    show "eig_banded lapack (tridiagonal_band Af (restart_vector stream ?d v0 w1 r) M junk2)
                   = Inr (ps' ! r) \<and> has_eigenpairs M (ps' ! r)"
      by (simp add: sh)
  qed
  note ih = Suc.IH [OF len' eig', of "foldl c_add acc (quadrature_terms fn M (el, ev))"]
  have wf: "w1\<lparr>rng_pos := rng_pos w1 + (if v0 = None then 2 * ?d * R else 0),
            dot_calls := dot_calls w1 + M * R\<rparr>
      = w\<lparr>rng_pos := rng_pos w + (if v0 = None then 2 * ?d * Suc R else 0),
            dot_calls := dot_calls w + M * Suc R\<rparr>"
    by (simp add: w1_def algebra_simps)
  have "gen_vals stream junk junk2 lapack A fn M v0 (Suc R) acc w
      = gen_vals stream junk junk2 lapack A fn M v0 R
          (foldl c_add acc (quadrature_terms fn M (el, ev))) w1"
    by (simp only: gen_vals.simps c sum.case prod.case lanczos_tridiag_eig_band [OF M] e0
        eig_terms_quadrature [OF h0])
  then show ?case
    by (simp only: ih wf) (simp add: ps p)
qed

lemma gen_vals_non_finite:
  assumes A: "acts_as A Af" and M: "0 < M" and R: "0 < R"
    and v0: "v0 = None \<or> (\<exists>v. v0 = Some v \<and> length v = lin_shape0 A)"
    and nan: "list_ex (\<lambda>row. None \<in> set row)
                (tridiagonal_band Af (restart_vector stream (lin_shape0 A) v0 w 0) M junk2)"
  shows "gen_vals stream junk junk2 lapack A fn M v0 R acc w = Inl NonFiniteError"
proof -
  from R obtain R' where R': "R = Suc R'" by (cases R) auto
  have e: "eig_banded lapack
      (tridiagonal_band Af (restart_vector stream (lin_shape0 A) v0 w 0) M junk2)
        = Inl NonFiniteError"
    using nan by (simp only: eig_banded_def if_True)
  show ?thesis
    unfolding R'
    by (simp only: gen_vals.simps construct_restart [OF A v0] sum.case prod.case
        lanczos_tridiag_eig_band [OF M] e)
qed

lemma breakdown_band:
  assumes A: "acts_as A Af" and d: "0 < lin_shape0 A" and v1: "length v1 = lin_shape0 A"
    and k: "1 \<le> k" "k < M" and z: "rec_beta Af v1 (k + 1) = Some 0"
  shows "list_ex (\<lambda>row. None \<in> set row) (tridiagonal_band Af v1 M junk2)"
proof -
  let ?al = "map (rec_alpha Af v1) [1..<M + 1]" and ?be = "map (rec_beta Af v1) [2..<M + 1]"
  have len: "\<forall>v. length v = lin_shape0 A \<longrightarrow> length (Af v) = lin_shape0 A"
    using A by (simp add: acts_as_def)
  have "?be ! (k - 1) = rec_beta Af v1 (2 + (k - 1))"
    using k by (intro nth_map_upt_from) simp
  with z k have zero: "?be ! (k - 1) = Some 0" by simp
  from breakdown_entries [OF len v1 d refl refl k zero le_refl k(2)]
  have "?al ! k = None" by simp
  moreover have "k < length ?al" using k by (simp del: upt_Suc)
  ultimately have "None \<in> set ?al" by (metis nth_mem)
  then show ?thesis by (simp add: tridiagonal_band_def del: upt_Suc)
qed

lemma restart_vector_length:
  "v0 = None \<or> (\<exists>v. v0 = Some v \<and> length v = d) \<Longrightarrow>
   length (restart_vector stream d v0 w r) = d"
  by (auto simp: restart_vector_def unit_normalized_def random_start_def)

text \<open>
  Claim C4, as the code has it.  Let \<open>A\<close> be an operator of dimension \<open>d\<close> whose \<^verbatim>\<open>dot\<close>
  acts as \<open>Af\<close>, \<open>M\<close> and \<open>R\<close> positive, and \<open>v0\<close> of length \<open>d\<close> or omitted.  Restart \<open>r\<close>
  hands to \<^verbatim>\<open>eig_banded\<close> the band of its tridiagonal matrix: the diagonal
  \<open>alpha\<^sub>1 .. alpha\<^sub>M\<close> and the subdiagonal \<open>beta\<^sub>2 .. beta\<^sub>M\<close> of the recurrence from its start
  vector, followed by an unassigned cell.  When for every restart the solver returns
  \<open>M\<close> eigenpairs for that band, \<^verbatim>\<open>approx_spectral_function\<close> returns \<open>d / R\<close> times the
  sum, over the \<open>R\<close> restarts and the \<open>M\<close> eigenpairs of each, of \<open>fn (eigenvalue\<^sub>i)\<close> times
  the squared magnitude of the first component of eigenvector \<open>i\<close>, and it has made
  exactly \<open>M * R\<close> calls of \<^verbatim>\<open>A.dot\<close>.  It does not return for every operator: when the
  band of the first restart holds a NaN, as it does after a Krylov breakdown
  (\<open>beta\<^sub>k\<^sub>+\<^sub>1 = 0\<close> for some \<open>1 \<le> k < M\<close>), the check of \<^verbatim>\<open>eig_banded\<close> raises and so does
  \<^verbatim>\<open>approx_spectral_function\<close>.
\<close>

theorem approx_spectral_function_sum:
  "acts_as A Af \<and> 0 < M \<and> 0 < R \<and>
   (v0 = None \<or> (\<exists>v. v0 = Some v \<and> length v = lin_shape0 A)) \<longrightarrow>
     (length ps = R \<and>
      (\<forall>r < R. eig_banded lapack
                  (tridiagonal_band Af (restart_vector stream (lin_shape0 A) v0 w r) M junk')
                    = Inr (ps ! r) \<and> has_eigenpairs M (ps ! r)) \<longrightarrow>
        approx_spectral_function stream junk junk' lapack A fn M R v0 w =
          Inr (c_mul (c_sum (concat (map (quadrature_terms fn M) ps)))
                 (Some (of_real (real (lin_shape0 A) / real R))),
               w\<lparr>rng_pos := rng_pos w + (if v0 = None then 2 * lin_shape0 A * R else 0),
                 dot_calls := dot_calls w + M * R\<rparr>)) \<and>
     (list_ex (\<lambda>row. None \<in> set row)
        (tridiagonal_band Af (restart_vector stream (lin_shape0 A) v0 w 0) M junk') \<longrightarrow>
        approx_spectral_function stream junk junk' lapack A fn M R v0 w = Inl NonFiniteError) \<and>
     (0 < lin_shape0 A \<and>
      (\<exists>k. 1 \<le> k \<and> k < M \<and>
           rec_beta Af (restart_vector stream (lin_shape0 A) v0 w 0) (k + 1) = Some 0) \<longrightarrow>
        approx_spectral_function stream junk junk' lapack A fn M R v0 w = Inl NonFiniteError)"
proof (intro impI conjI)
  assume h: "acts_as A Af \<and> 0 < M \<and> 0 < R \<and>
   (v0 = None \<or> (\<exists>v. v0 = Some v \<and> length v = lin_shape0 A))"
  then have A: "acts_as A Af" and M: "0 < M" and R: "0 < R"
    and v0: "v0 = None \<or> (\<exists>v. v0 = Some v \<and> length v = lin_shape0 A)"
    by simp_all
  {
    assume e: "length ps = R \<and>
      (\<forall>r < R. eig_banded lapack
                  (tridiagonal_band Af (restart_vector stream (lin_shape0 A) v0 w r) M junk')
                    = Inr (ps ! r) \<and> has_eigenpairs M (ps ! r))"
    from gen_vals_sum [OF A M v0 e [THEN conjunct1] e [THEN conjunct2], of junk fn "Some 0"] R
    show "approx_spectral_function stream junk junk' lapack A fn M R v0 w =
          Inr (c_mul (c_sum (concat (map (quadrature_terms fn M) ps)))
                 (Some (of_real (real (lin_shape0 A) / real R))),
               w\<lparr>rng_pos := rng_pos w + (if v0 = None then 2 * lin_shape0 A * R else 0),
                 dot_calls := dot_calls w + M * R\<rparr>)"
      by (simp add: approx_spectral_function_def c_sum_def)
  }
  {
    assume "list_ex (\<lambda>row. None \<in> set row)
        (tridiagonal_band Af (restart_vector stream (lin_shape0 A) v0 w 0) M junk')"
    from gen_vals_non_finite [OF A M R v0 this, of junk lapack fn "Some 0"]
    show "approx_spectral_function stream junk junk' lapack A fn M R v0 w = Inl NonFiniteError"
      by (simp add: approx_spectral_function_def)
  }
  {
    assume b: "0 < lin_shape0 A \<and>
      (\<exists>k. 1 \<le> k \<and> k < M \<and>
           rec_beta Af (restart_vector stream (lin_shape0 A) v0 w 0) (k + 1) = Some 0)"
    then obtain k where k: "1 \<le> k" "k < M"
      and z: "rec_beta Af (restart_vector stream (lin_shape0 A) v0 w 0) (k + 1) = Some 0"
      by blast
    from b have d: "0 < lin_shape0 A" by simp
    have "list_ex (\<lambda>row. None \<in> set row)
        (tridiagonal_band Af (restart_vector stream (lin_shape0 A) v0 w 0) M junk')"
      by (rule breakdown_band [OF A d restart_vector_length [OF v0] k z])
    from gen_vals_non_finite [OF A M R v0 this, of junk lapack fn "Some 0"]
    show "approx_spectral_function stream junk junk' lapack A fn M R v0 w = Inl NonFiniteError"
      by (simp add: approx_spectral_function_def)
  }
qed

theorem approx_spectral_function_sum_counterexample:
  "\<forall>lapack. approx_spectral_function (\<lambda>i. 0) None (Some 0) lapack
       \<lparr>lin_shape0 = 2, lin_dot = (\<lambda>v. Inr v)\<rparr> (\<lambda>x. Some 1) 2 1 (Some [1, 0])
       \<lparr>rng_pos = 0, dot_calls = 0\<rparr>
     = Inl NonFiniteError"
proof
  fix lapack :: eig_solver
  let ?A = "\<lparr>lin_shape0 = 2, lin_dot = (\<lambda>v. Inr v)\<rparr>"
  let ?w = "\<lparr>rng_pos = 0, dot_calls = 0\<rparr>"
  have c: "construct_lanczos_tridiag (\<lambda>i. 0) None ?A (Some [1, 0]) 2 ?w
     = Inr (([Some 1, None], [Some 0]), \<lparr>rng_pos = 0, dot_calls = 2\<rparr>)"
    by (simp add: lanczos_eval)
  have e: "lanczos_tridiag_eig lapack (Some 0) [Some 1, None] [Some 0] = Inl NonFiniteError"
    by (simp add: lanczos_tridiag_eig_def broadcast_to_def eig_banded_def)
  have "gen_vals (\<lambda>i. 0) None (Some 0) lapack ?A (\<lambda>x. Some 1) 2 (Some [1, 0]) (Suc 0) (Some 0) ?w
      = Inl NonFiniteError"
    by (simp only: gen_vals.simps c e sum.case prod.case)
  then show "approx_spectral_function (\<lambda>i. 0) None (Some 0) lapack ?A (\<lambda>x. Some 1) 2 1
       (Some [1, 0]) ?w = Inl NonFiniteError"
    by (simp add: approx_spectral_function_def)
qed

theorem approx_spectral_function_sum_witness:
  "acts_as \<lparr>lin_shape0 = 2, lin_dot = (\<lambda>v. Inr (rev v))\<rparr> rev \<and>
   length [1 :: complex, 0] = lin_shape0 \<lparr>lin_shape0 = 2, lin_dot = (\<lambda>v. Inr (rev v))\<rparr> \<and>
   tridiagonal_band rev
       (restart_vector (\<lambda>i. 0) 2 (Some [1, 0]) \<lparr>rng_pos = 0, dot_calls = 0\<rparr> 0) 2 (Some 0)
     = [[Some 0, Some 0], [Some 1, Some 0]] \<and>
   eig_banded
       (\<lambda>band. Inr ([Some (- 1), Some 1],
                     [[Some (1 / sqrt 2), Some (1 / sqrt 2)],
                      [Some (- (1 / sqrt 2)), Some (1 / sqrt 2)]]))
       [[Some 0, Some 0], [Some 1, Some 0]]
     = Inr ([Some (- 1), Some 1],
            [[Some (1 / sqrt 2), Some (1 / sqrt 2)],
             [Some (- (1 / sqrt 2)), Some (1 / sqrt 2)]]) \<and>
   has_eigenpairs 2 ([Some (- 1), Some 1],
            [[Some (1 / sqrt 2), Some (1 / sqrt 2)],
             [Some (- (1 / sqrt 2)), Some (1 / sqrt 2)]]) \<and>
   approx_spectral_function (\<lambda>i. 0) None (Some 0)
       (\<lambda>band. Inr ([Some (- 1), Some 1],
                     [[Some (1 / sqrt 2), Some (1 / sqrt 2)],
                      [Some (- (1 / sqrt 2)), Some (1 / sqrt 2)]]))
       \<lparr>lin_shape0 = 2, lin_dot = (\<lambda>v. Inr (rev v))\<rparr>
       (map_option (\<lambda>x. of_real (x * x))) 2 1 (Some [1, 0]) \<lparr>rng_pos = 0, dot_calls = 0\<rparr>
     = Inr (Some 2, \<lparr>rng_pos = 0, dot_calls = 2\<rparr>) \<and>
   acts_as \<lparr>lin_shape0 = 2, lin_dot = (\<lambda>v. Inr v)\<rparr> (\<lambda>v. v) \<and>
   rec_beta (\<lambda>v. v)
       (restart_vector (\<lambda>i. 0) 2 (Some [1, 0]) \<lparr>rng_pos = 0, dot_calls = 0\<rparr> 0) (1 + 1)
     = Some 0 \<and>
   approx_spectral_function (\<lambda>i. 0) None (Some 0) (\<lambda>band. Inr ([], []))
       \<lparr>lin_shape0 = 2, lin_dot = (\<lambda>v. Inr v)\<rparr> (\<lambda>x. Some 1) 2 1 (Some [1, 0])
       \<lparr>rng_pos = 0, dot_calls = 0\<rparr>
     = Inl NonFiniteError"
proof -
  let ?S = "\<lparr>lin_shape0 = 2, lin_dot = (\<lambda>v. Inr (rev v))\<rparr>"
  let ?I = "\<lparr>lin_shape0 = 2, lin_dot = (\<lambda>v. Inr v)\<rparr>"
  let ?w = "\<lparr>rng_pos = 0, dot_calls = 0\<rparr>"
  let ?p = "([Some (- 1), Some 1],
            [[Some (1 / sqrt 2), Some (1 / sqrt 2)],
             [Some (- (1 / sqrt 2)), Some (1 / sqrt 2)]]) :: fl list \<times> fl list list"
  let ?lap = "\<lambda>band :: fl list list. Inr ?p :: error + (fl list \<times> fl list list)"
  let ?none = "\<lambda>band :: fl list list. Inr ([], []) :: error + (fl list \<times> fl list list)"
  let ?sq = "map_option (\<lambda>x :: real. complex_of_real (x * x))"
  let ?vS = "restart_vector (\<lambda>i. 0) 2 (Some [1, 0]) ?w 0"
  have aS: "acts_as ?S rev" and aI: "acts_as ?I (\<lambda>v. v)" by (simp_all add: acts_as_def)
  have vS: "Some [1 :: complex, 0] = None \<or> (\<exists>v. Some [1 :: complex, 0] = Some v \<and> length v = lin_shape0 ?S)"
    and vI: "Some [1 :: complex, 0] = None \<or> (\<exists>v. Some [1 :: complex, 0] = Some v \<and> length v = lin_shape0 ?I)"
    by simp_all
  have cS: "construct_lanczos_tridiag (\<lambda>i. 0) None ?S (Some [1, 0]) 2 ?w
     = Inr (([Some 0, Some 0], [Some 1]), \<lparr>rng_pos = 0, dot_calls = 2\<rparr>)"
    by (simp add: lanczos_eval)
  have cI: "construct_lanczos_tridiag (\<lambda>i. 0) None ?I (Some [1, 0]) 2 ?w
     = Inr (([Some 1, None], [Some 0]), \<lparr>rng_pos = 0, dot_calls = 2\<rparr>)"
    by (simp add: lanczos_eval)
  from construct_restart [OF aS vS, of "\<lambda>i. 0" None 2 ?w] cS
  have "map (rec_alpha rev ?vS) [1..<2 + 1] = [Some 0, Some 0]"
    "map (rec_beta rev ?vS) [2..<2 + 1] = [Some 1]"
    by simp_all
  then have band: "tridiagonal_band rev ?vS 2 (Some 0) = [[Some 0, Some 0], [Some 1, Some 0]]"
    by (simp only: tridiagonal_band_def) simp
  from construct_restart [OF aI vI, of "\<lambda>i. 0" None 2 ?w] cI
  have mI: "map (rec_beta (\<lambda>v. v) ?vS) [2..<2 + 1] = [Some 0]" by simp
  have u: "[2..<2 + 1] = [2 :: nat]" by (simp add: upt_rec)
  from mI have "rec_beta (\<lambda>v. v) ?vS 2 = Some 0" unfolding u by simp
  then have z: "rec_beta (\<lambda>v. v) ?vS (1 + 1) = Some 0" by (simp only: one_add_one)
  have e: "eig_banded ?lap [[Some 0, Some 0], [Some 1, Some 0]] = Inr ?p"
    by (simp add: eig_banded_def)
  have hp: "has_eigenpairs 2 ?p" by (simp add: has_eigenpairs_def)
  have hS: "acts_as ?S rev \<and> (0 :: nat) < 2 \<and> (0 :: nat) < 1 \<and>
      (Some [1 :: complex, 0] = None \<or> (\<exists>v. Some [1 :: complex, 0] = Some v \<and> length v = lin_shape0 ?S))"
    using aS by simp
  have hI: "acts_as ?I (\<lambda>v. v) \<and> (0 :: nat) < 2 \<and> (0 :: nat) < 1 \<and>
      (Some [1 :: complex, 0] = None \<or> (\<exists>v. Some [1 :: complex, 0] = Some v \<and> length v = lin_shape0 ?I))"
    using aI by simp
  have h2: "length [?p] = 1 \<and>
      (\<forall>r < 1. eig_banded ?lap
                  (tridiagonal_band rev (restart_vector (\<lambda>i. 0) (lin_shape0 ?S) (Some [1, 0]) ?w r)
                     2 (Some 0))
                    = Inr ([?p] ! r) \<and> has_eigenpairs 2 ([?p] ! r))"
    using band e hp by simp
  have s2: "(complex_of_real (sqrt 2))\<^sup>2 = 2" by (simp flip: of_real_power)
  have q: "c_mul (c_sum (concat (map (quadrature_terms ?sq 2) [?p])))
              (Some (of_real (real (lin_shape0 ?S) / real 1))) = Some 2"
    by (simp add: quadrature_terms_def c_sum_def c_add_def c_mul_def lift2_def upt_rec
        power_divide s2)
  note tS = approx_spectral_function_sum [of ?S rev 2 1 "Some [1, 0]" "[?p]" ?lap "\<lambda>i. 0" ?w
      "Some 0" None ?sq, THEN mp, OF hS]
  from tS [THEN conjunct1, THEN mp, OF h2]
  have r1: "approx_spectral_function (\<lambda>i. 0) None (Some 0) ?lap ?S ?sq 2 1 (Some [1, 0]) ?w
      = Inr (Some 2, \<lparr>rng_pos = 0, dot_calls = 2\<rparr>)"
    by (simp only: q) simp
  have h3: "0 < lin_shape0 ?I \<and>
      (\<exists>k. 1 \<le> k \<and> k < 2 \<and>
           rec_beta (\<lambda>v. v) (restart_vector (\<lambda>i. 0) (lin_shape0 ?I) (Some [1, 0]) ?w 0) (k + 1)
             = Some 0)"
    using z by (auto intro: exI [where x = 1])
  note tI = approx_spectral_function_sum [of ?I "\<lambda>v. v" 2 1 "Some [1, 0]" "[]" ?none "\<lambda>i. 0" ?w
      "Some 0" None "\<lambda>x. Some 1", THEN mp, OF hI]
  from tI [THEN conjunct2, THEN conjunct2, THEN mp, OF h3]
  have r2: "approx_spectral_function (\<lambda>i. 0) None (Some 0) ?none ?I (\<lambda>x. Some 1) 2 1
      (Some [1, 0]) ?w = Inl NonFiniteError" .
  from aS band e hp r1 aI z r2 show ?thesis by simp
qed

lemma distinct_ndindex: "distinct (ndindex ds)"
proof -
  have "distinct (map (\<lambda>idx. ravel_multi_index idx ds) (ndindex ds))"
    by (simp only: ravel_ndindex) simp
  then show ?thesis by (simp add: distinct_map)
qed

lemma ndindex_nth_ravel:
  assumes "j \<in> set (ndindex ds)"
  shows "ndindex ds ! ravel_multi_index j ds = j"
proof -
  from assms obtain i where i: "i < length (ndindex ds)" "ndindex ds ! i = j"
    by (auto simp: in_set_conv_nth)
  have "map (\<lambda>idx. ravel_multi_index idx ds) (ndindex ds) ! i = [0..<prod_list ds] ! i"
    by (simp only: ravel_ndindex)
  moreover have "length (ndindex ds) = prod_list ds"
    using arg_cong [OF ravel_ndindex [of ds], of length] by simp
  ultimately have "ravel_multi_index j ds = i" using i by simp
  with i show ?thesis by simp
qed

lemma length_ndindex: "length (ndindex ds) = prod_list ds"
  using arg_cong [OF ravel_ndindex [of ds], of length] by simp

lemma assign_append_split:
  "length ls = length xs \<Longrightarrow>
   assign (ls @ ms) (xs @ ys) l = (if l \<in> set ls then assign ls xs l else assign ms ys l)"
proof -
  assume len: "length ls = length xs"
  then have z: "zip (ls @ ms) (xs @ ys) = zip ls xs @ zip ms ys" by simp
  show ?thesis
  proof (cases "l \<in> set ls")
    case True
    with len obtain x where "map_of (zip ls xs) l = Some x"
      using map_of_zip_is_None [of ls xs l] by (cases "map_of (zip ls xs) l") auto
    with True show ?thesis by (simp add: assign_def z map_add_def)
  next
    case False
    with len have "map_of (zip ls xs) l = None"
      using map_of_zip_is_None [of ls xs l] by simp
    with False show ?thesis by (simp add: assign_def z map_add_def)
  qed
qed

text \<open>The sum over all assignments of a list of distinct labels does not depend on the
  order of the labels.\<close>

lemma assign_image:
  assumes "distinct L"
  shows "assign L ` set (ndindex (map sz L))
         = {e. (\<forall>l \<in> set L. e l < sz l) \<and> (\<forall>l. l \<notin> set L \<longrightarrow> e l = 0)}"
proof (intro set_eqI iffI)
  fix e assume "e \<in> assign L ` set (ndindex (map sz L))"
  then obtain s where s: "list_all2 (<) s (map sz L)" and e: "e = assign L s"
    by (auto simp: set_ndindex)
  from s have len: "length L = length s" by (auto dest: list_all2_lengthD)
  have m: "map (assign L s) L = s" using assms len by (rule assign_map)
  have "e l < sz l" if "l \<in> set L" for l
  proof -
    from that obtain i where i: "i < length L" "L ! i = l" by (auto simp: in_set_conv_nth)
    have "map (assign L s) L ! i = assign L s (L ! i)" using i by simp
    with m i have "e l = s ! i" unfolding e by simp
    moreover from s i have "s ! i < sz l" by (auto simp: list_all2_conv_all_nth)
    ultimately show ?thesis by simp
  qed
  moreover have "e l = 0" if "l \<notin> set L" for l
  proof -
    from that len have n: "map_of (zip L s) l = None"
      using map_of_zip_is_None [of L s l] by simp
    show ?thesis unfolding e assign_def n by simp
  qed
  ultimately show "e \<in> {e. (\<forall>l \<in> set L. e l < sz l) \<and> (\<forall>l. l \<notin> set L \<longrightarrow> e l = 0)}"
    by blast
next
  fix e assume "e \<in> {e. (\<forall>l \<in> set L. e l < sz l) \<and> (\<forall>l. l \<notin> set L \<longrightarrow> e l = 0)}"
  then have r: "\<forall>l \<in> set L. e l < sz l" and z: "\<forall>l. l \<notin> set L \<longrightarrow> e l = 0" by simp_all
  have in_nd: "map e L \<in> set (ndindex (map sz L))"
    using r by (simp add: set_ndindex list_all2_conv_all_nth)
  have "assign L (map e L) = e"
  proof
    fix l
    show "assign L (map e L) l = e l"
    proof (cases "l \<in> set L")
      case True
      then have m: "map_of (zip L (map e L)) l = Some (e l)"
        by (simp add: map_of_zip_map)
      show ?thesis unfolding assign_def m by simp
    next
      case False
      then have n: "map_of (zip L (map e L)) l = None"
        using map_of_zip_is_None [of L "map e L" l] by simp
      from False z have "e l = 0" by simp
      then show ?thesis unfolding assign_def n by simp
    qed
  qed
  with in_nd show "e \<in> assign L ` set (ndindex (map sz L))" by force
qed

lemma sum_assign:
  fixes F :: "(int \<Rightarrow> nat) \<Rightarrow> complex"
  assumes "distinct L"
  shows "sum_list (map (\<lambda>s. F (assign L s)) (ndindex (map sz L)))
         = sum F {e. (\<forall>l \<in> set L. e l < sz l) \<and> (\<forall>l. l \<notin> set L \<longrightarrow> e l = 0)}"
proof -
  have inj: "inj_on (assign L) (set (ndindex (map sz L)))"
  proof (rule inj_onI)
    fix s t assume s: "s \<in> set (ndindex (map sz L))" and t: "t \<in> set (ndindex (map sz L))"
      and eq: "assign L s = assign L t"
    from s t have ls: "length L = length s" and lt: "length L = length t"
      by (auto simp: set_ndindex dest: list_all2_lengthD)
    have "s = map (assign L s) L" by (rule assign_map [OF assms ls, symmetric])
    also have "\<dots> = map (assign L t) L" by (simp only: eq)
    also have "\<dots> = t" by (rule assign_map [OF assms lt])
    finally show "s = t" .
  qed
  have "sum_list (map (\<lambda>s. F (assign L s)) (ndindex (map sz L)))
        = sum (\<lambda>s. F (assign L s)) (set (ndindex (map sz L)))"
    by (rule sum_list_distinct_conv_sum_set [OF distinct_ndindex])
  also have "\<dots> = sum F (assign L ` set (ndindex (map sz L)))"
    by (simp add: sum.reindex [OF inj] comp_def)
  finally show ?thesis by (simp only: assign_image [OF assms])
qed

lemma sum_assign_perm:
  fixes F :: "(int \<Rightarrow> nat) \<Rightarrow> complex"
  assumes "distinct L" "distinct L'" "set L = set L'"
  shows "sum_list (map (\<lambda>s. F (assign L s)) (ndindex (map sz L)))
         = sum_list (map (\<lambda>s. F (assign L' s)) (ndindex (map sz L')))"
  by (simp only: sum_assign [OF assms(1)] sum_assign [OF assms(2)] assms(3))

lemma sum_ndindex_append:
  fixes F :: "nat list \<Rightarrow> 'c :: comm_monoid_add"
  shows "sum_list (map F (ndindex (ds @ es)))
         = sum_list (map (\<lambda>x. sum_list (map (\<lambda>c. F (x @ c)) (ndindex es))) (ndindex ds))"
proof (induction ds arbitrary: F)
  case Nil
  then show ?case by simp
next
  case (Cons d ds)
  have "sum_list (map F (ndindex ((d # ds) @ es)))
        = sum_list (map (\<lambda>i. sum_list (map (\<lambda>s. F (i # s)) (ndindex (ds @ es)))) [0..<d])"
    by (simp only: append_Cons sum_ndindex_Cons)
  also have "\<dots> = sum_list (map (\<lambda>i. sum_list (map (\<lambda>x. sum_list
                 (map (\<lambda>c. F (i # x @ c)) (ndindex es))) (ndindex ds))) [0..<d])"
    by (simp only: Cons.IH)
  also have "\<dots> = sum_list (map (\<lambda>x. sum_list (map (\<lambda>c. F (x @ c)) (ndindex es)))
                 (ndindex (d # ds)))"
    by (simp only: sum_ndindex_Cons append_Cons)
  finally show ?case .
qed

lemma map_if_mix:
  "map (\<lambda>i. if A i then g i else h i) xs = mix (map A xs) (map g xs) (map h xs)"
  by (induction xs) auto

lemma map_mix: "map g (mix ks a b) = mix ks (map g a) (map g b)"
  by (induction ks a b rule: mix.induct) auto

lemma mix_same: "length ks = length a \<Longrightarrow> mix ks a a = a"
  by (induction ks a rule: list_induct2) auto

lemma length_mix:
  "length ks = length a \<Longrightarrow> length a = length b \<Longrightarrow> length (mix ks a b) = length a"
  by (induction ks a b rule: list_induct3) auto

lemma mset_mix:
  "length ks = length a \<Longrightarrow> length a = length b \<Longrightarrow>
   mset (mix ks a b) + mset (mix ks b a) = mset a + mset b"
  by (induction ks a b rule: list_induct3) auto

lemma mix_in_range:
  "length ks = length ds \<Longrightarrow> list_all2 (<) x ds \<Longrightarrow> list_all2 (<) y ds \<Longrightarrow>
   list_all2 (<) (mix ks x y) ds"
proof (induction ks ds arbitrary: x y rule: list_induct2)
  case Nil
  then show ?case by simp
next
  case (Cons k ks d ds)
  from Cons.prems obtain x' xs y' ys where "x = x' # xs" "y = y' # ys"
    by (auto simp: list_all2_Cons2)
  with Cons show ?case by auto
qed

lemma partial_trace_nth:
  assumes "j \<in> set (ndindex (select ks dims))" "a \<in> set (ndindex (select ks dims))"
  shows "partial_trace rho dims ks ! ravel_multi_index j (select ks dims)
           ! ravel_multi_index a (select ks dims)
         = sum_list (map (\<lambda>b. rho ! ravel_multi_index (merge ks j b) dims
                              ! ravel_multi_index (merge ks a b) dims)
                   (ndindex (select (map Not ks) dims)))"
proof -
  let ?da = "select ks dims"
  have bj: "ravel_multi_index j ?da < length (ndindex ?da)"
    and ba: "ravel_multi_index a ?da < length (ndindex ?da)"
    using assms by (auto simp: set_ndindex length_ndindex intro: ravel_bound)
  show ?thesis
    unfolding partial_trace_def Let_def
    by (simp only: nth_map [OF bj] nth_map [OF ba] ndindex_nth_ravel [OF assms(1)]
        ndindex_nth_ravel [OF assms(2)])
qed

lemma matvec_partial_transpose:
  assumes ta: "length ta = length (select ks dims)"
    and v: "length v = prod_list (select ks dims)"
  shows "matvec (partial_transpose (partial_trace rho dims ks) (select ks dims) ta) v
   = map (\<lambda>oi. sum_list (map (\<lambda>x. sum_list
                (map (\<lambda>b. rho ! ravel_multi_index (merge ks (mix ta x oi) b) dims
                              ! ravel_multi_index (merge ks (mix ta oi x) b) dims)
                   (ndindex (select (map Not ks) dims)))
                 * v ! ravel_multi_index x (select ks dims))
              (ndindex (select ks dims))))
       (ndindex (select ks dims))"
proof -
  let ?da = "select ks dims"
  have row: "sum_list (map2 (*) (map (\<lambda>c. partial_trace rho dims ks
                 ! ravel_multi_index (mix ta c oi) ?da ! ravel_multi_index (mix ta oi c) ?da)
                 (ndindex ?da)) v)
      = sum_list (map (\<lambda>x. sum_list
                (map (\<lambda>b. rho ! ravel_multi_index (merge ks (mix ta x oi) b) dims
                              ! ravel_multi_index (merge ks (mix ta oi x) b) dims)
                   (ndindex (select (map Not ks) dims)))
                 * v ! ravel_multi_index x ?da) (ndindex ?da))"
    if oi: "oi \<in> set (ndindex ?da)" for oi
  proof -
    have "partial_trace rho dims ks
                 ! ravel_multi_index (mix ta x oi) ?da ! ravel_multi_index (mix ta oi x) ?da
        = sum_list (map (\<lambda>b. rho ! ravel_multi_index (merge ks (mix ta x oi) b) dims
                              ! ravel_multi_index (merge ks (mix ta oi x) b) dims)
                   (ndindex (select (map Not ks) dims)))"
      if x: "x \<in> set (ndindex ?da)" for x
    proof (rule partial_trace_nth)
      show "mix ta x oi \<in> set (ndindex ?da)" "mix ta oi x \<in> set (ndindex ?da)"
        using x oi ta by (simp_all add: set_ndindex mix_in_range)
    qed
    then have "map (\<lambda>x. partial_trace rho dims ks
                 ! ravel_multi_index (mix ta x oi) ?da ! ravel_multi_index (mix ta oi x) ?da
                 * v ! ravel_multi_index x ?da) (ndindex ?da)
        = map (\<lambda>x. sum_list (map (\<lambda>b. rho ! ravel_multi_index (merge ks (mix ta x oi) b) dims
                              ! ravel_multi_index (merge ks (mix ta oi x) b) dims)
                   (ndindex (select (map Not ks) dims)))
                 * v ! ravel_multi_index x ?da) (ndindex ?da)"
      by (intro map_cong refl arg_cong2 [where f = "(*)"])
    then show ?thesis by (simp only: matvec_row [OF v])
  qed
  have "matvec (partial_transpose (partial_trace rho dims ks) ?da ta) v
     = map (\<lambda>oi. sum_list (map2 (*) (map (\<lambda>c. partial_trace rho dims ks
                 ! ravel_multi_index (mix ta c oi) ?da ! ravel_multi_index (mix ta oi c) ?da)
                 (ndindex ?da)) v)) (ndindex ?da)"
    by (simp add: matvec_def partial_transpose_def comp_def)
  also have "\<dots> = map (\<lambda>oi. sum_list (map (\<lambda>x. sum_list
                (map (\<lambda>b. rho ! ravel_multi_index (merge ks (mix ta x oi) b) dims
                              ! ravel_multi_index (merge ks (mix ta oi x) b) dims)
                   (ndindex (select (map Not ks) dims)))
                 * v ! ravel_multi_index x ?da) (ndindex ?da))) (ndindex ?da)"
    by (intro map_cong refl row)
  finally show ?thesis .
qed

text \<open>The contraction of a trace+transpose+dot plan.\<close>

lemma ptr_ppt_dot_labels:
  assumes js: "distinct js" and ups: "distinct ups" and dis: "set js \<inter> set ups = {}"
    and len: "length (filter P js) \<le> length ups"
    and K: "K = filter P js" and U: "U = take (length K) ups"
    and T: "T = filter (\<lambda>i. \<not> P i) js"
    and ab: "ab = map (\<lambda>i. if A i then i else fresh_of P js ups i) K"
    and out: "out = map (\<lambda>i. if A i then fresh_of P js ups i else i) K"
  shows "ab = mix (map A K) K U" "out = mix (map A K) U K"
    and "U = mix (map A K) out ab" "K = mix (map A K) ab out"
    and "map (fresh_of P js ups) js = merge (map P js) U T"
    and "js = merge (map P js) K T"
    and "distinct (out @ ab @ T)" and "set (out @ ab @ T) = set U \<union> set js"
    and "length U = length K"
proof -
  let ?f = "fresh_of P js ups"
  have fK: "map ?f K = U" unfolding K U by (rule fresh_of_kept [OF js len])
  show lU: "length U = length K" using len unfolding U K by simp
  show ab_mix: "ab = mix (map A K) K U"
    using map_if_mix [of A "\<lambda>i. i" ?f K] by (simp add: ab fK)
  show out_mix: "out = mix (map A K) U K"
    using map_if_mix [of A ?f "\<lambda>i. i" K] by (simp add: out fK)
  have "map ?f K = map (\<lambda>i. if A i then (if A i then ?f i else i) else (if A i then i else ?f i)) K"
    by (rule map_cong) simp_all
  also have "\<dots> = mix (map A K) out ab"
    unfolding out ab by (rule map_if_mix)
  finally show "U = mix (map A K) out ab" by (simp only: fK)
  have "map (\<lambda>i. i) K = map (\<lambda>i. if A i then (if A i then i else ?f i) else (if A i then ?f i else i)) K"
    by (rule map_cong) simp_all
  also have "\<dots> = mix (map A K) ab out"
    unfolding out ab by (rule map_if_mix)
  finally show "K = mix (map A K) ab out" by simp
  show "map ?f js = merge (map P js) U T"
    unfolding U K T by (rule fresh_of_merge [OF js len])
  show "js = merge (map P js) K T"
    using map_merge [of "\<lambda>i. i" js P] by (simp add: K T)
  have "mset out + mset ab = mset U + mset K"
    unfolding ab_mix out_mix by (rule mset_mix) (simp_all add: lU)
  moreover have "mset K + mset T = mset js"
    unfolding K T by (simp add: multiset_partition [symmetric])
  ultimately have m: "mset (out @ ab @ T) = mset (U @ js)"
    by (simp add: ac_simps)
  have "distinct (U @ js)" using js ups dis unfolding U by (auto dest: in_set_takeD)
  with m show "distinct (out @ ab @ T)" by (metis mset_eq_imp_distinct_iff)
  from m have "set (out @ ab @ T) = set (U @ js)" by (rule mset_eq_setD)
  then show "set (out @ ab @ T) = set U \<union> set js" by simp
qed

lemma ptr_ppt_dot_axes:
  fixes AB B B' :: ndarray
  assumes js: "distinct js" and ups: "distinct ups" and dis: "set js \<inter> set ups = {}"
    and len: "length (filter P js) \<le> length ups" and n: "length js = length dims"
    and AB: "shape AB = select (map P js) dims" and B: "shape B = dims" and B': "shape B' = dims"
    and K: "K = filter P js" and U: "U = take (length K) ups"
    and ab: "ab = map (\<lambda>i. if A i then i else fresh_of P js ups i) K"
    and ops: "ops = [(AB, ab), (B', map (fresh_of P js ups) js), (B, js)]"
  shows "set (axis_sizes ops) \<subseteq> set (zip (U @ js) (select (map P js) dims @ dims))"
proof -
  let ?mask = "map P js"
  let ?da = "select ?mask dims"
  let ?f = "fresh_of P js ups"
  note old = ptr_dot_axes [OF js ups dis len n AB B B' refl refl]
  have lU: "length U = length ?da" using old(3) U K by simp
  have z: "zip (U @ js) (?da @ dims) = zip U ?da @ zip js dims"
    using lU by simp
  have sub: "set (zip (filter P js) ?da) \<union> set (zip js dims) \<union> set (zip (map ?f js) dims)
      \<subseteq> set (zip U ?da) \<union> set (zip js dims)"
    using old(1) old(3) unfolding U K by (simp add: axis_sizes_def AB B B')
  have fK: "map ?f K = U" unfolding K U by (rule fresh_of_kept [OF js len])
  have lK: "length K = length ?da" using lU len unfolding U K by simp
  have ab_mix: "ab = mix (map A K) K U"
    using map_if_mix [of A "\<lambda>i. i" ?f K] by (simp add: ab fK)
  have "set (zip (mix ks a b) ds) \<subseteq> set (zip a ds) \<union> set (zip b ds)"
    for ks :: "bool list" and a b :: "int list" and ds :: "nat list"
  proof (induction ks a b arbitrary: ds rule: mix.induct)
    case (1 k ks x xs y ys)
    then show ?case by (cases ds) auto
  qed simp_all
  then have "set (zip ab ?da) \<subseteq> set (zip K ?da) \<union> set (zip U ?da)"
    unfolding ab_mix .
  with sub show ?thesis
    by (simp add: axis_sizes_def ops AB B B' z K) blast
qed

lemma einsum_ptr_ppt_dot:
  assumes js: "distinct js" and ups: "distinct ups"
    and dis: "set js \<inter> set ups = {}"
    and len: "length (filter P js) \<le> length ups" and n: "length js = length dims"
    and v: "length v = prod_list (select (map P js) dims)" and psi: "length psi = prod_list dims"
  shows "einsum [(\<lparr>shape = select (map P js) dims, data = v\<rparr>,
                  map (\<lambda>i. if A i then i else fresh_of P js ups i) (filter P js)),
                 (conjugate \<lparr>shape = dims, data = psi\<rparr>, map (fresh_of P js ups) js),
                 (\<lparr>shape = dims, data = psi\<rparr>, js)]
           (Some (map (\<lambda>i. if A i then fresh_of P js ups i else i) (filter P js)))
         = Inr \<lparr>shape = select (map P js) dims,
                data = matvec (partial_transpose (partial_trace (outer psi) dims (map P js))
                                 (select (map P js) dims) (map A (filter P js))) v\<rparr>"
proof -
  let ?ks = "map P js"
  let ?da = "select ?ks dims" and ?dc = "select (map Not ?ks) dims"
  let ?f = "fresh_of P js ups"
  define K where "K = filter P js"
  define U where "U = take (length K) ups"
  define T where "T = filter (\<lambda>i. \<not> P i) js"
  define ab where "ab = map (\<lambda>i. if A i then i else ?f i) K"
  define out where "out = map (\<lambda>i. if A i then ?f i else i) K"
  define ta where "ta = map A K"
  let ?AB = "\<lparr>shape = ?da, data = v\<rparr>" and ?B = "\<lparr>shape = dims, data = psi\<rparr>"
  define ops where "ops = [(?AB, ab), (conjugate ?B, map ?f js), (?B, js)]"
  define S where "S = sort (filter (\<lambda>l. l \<notin> set out) (remdups (ab @ map ?f js @ js)))"
  note L = ptr_ppt_dot_labels [OF js ups dis len K_def U_def T_def ab_def out_def]
  have labels: "concat (map snd ops) = ab @ map ?f js @ js" by (simp add: ops_def)
  have lens: "length K = length ?da" "length U = length ?da" "length ta = length ?da"
    "length ab = length ?da" "length out = length ?da"
    using length_select_filter [of ?ks dims] n L(9)
    by (simp_all add: filter_map comp_def K_def ta_def ab_def out_def)
  have lT: "length T = length ?dc"
    using length_select_filter [of "map Not ?ks" dims] n
    by (simp add: filter_map comp_def T_def)
  have dUjs: "distinct (U @ js)" using js ups dis unfolding U_def by (auto dest: in_set_takeD)
  have set_ab: "set ab \<subseteq> set U \<union> set js" and set_out: "set out \<subseteq> set U \<union> set js"
    using L(8) by auto
  have set_T: "set T \<subseteq> set js" unfolding T_def by auto
  have set_f: "set (map ?f js) \<subseteq> set U \<union> set js"
  proof -
    have "set (merge ks a b) \<subseteq> set a \<union> set b" for ks and a b :: "int list"
      by (induction ks a b rule: merge.induct) auto
    from this [of ?ks U T] set_T show ?thesis by (simp only: L(5)) blast
  qed
  have set_labels: "set (ab @ map ?f js @ js) = set U \<union> set js"
  proof -
    have "set U = set (map ?f (filter P js))"
      using fresh_of_kept [OF js len] by (simp only: U_def K_def)
    also have "\<dots> \<subseteq> set (map ?f js)" by auto
    finally have "set U \<subseteq> set (map ?f js)" .
    with set_ab set_f show ?thesis by auto
  qed
  have dS: "distinct S" unfolding S_def by simp
  have setS: "set S = set (ab @ T)"
  proof -
    have "set S = (set U \<union> set js) - set out"
      unfolding S_def using set_labels by auto
    also have "\<dots> = set (out @ ab @ T) - set out" by (simp only: L(8))
    also have "\<dots> = set (ab @ T)" using L(7) by auto
    finally show ?thesis .
  qed
  have dabT: "distinct (ab @ T)" and dout: "distinct out" using L(7) by simp_all
  have ax1: "set (axis_sizes ops) \<subseteq> set (zip (U @ js) (?da @ dims))"
    by (rule ptr_ppt_dot_axes [OF js ups dis len n _ _ _ K_def U_def ab_def ops_def])
       (simp_all add: conjugate_def)
  have dC: "distinct (map fst (zip (U @ js) (?da @ dims)))"
    using dUjs lens n by (simp add: map_fst_zip del: distinct_append)
  have keys: "fst ` set (axis_sizes ops) = set (ab @ map ?f js @ js)"
    using lens n by (simp add: ops_def axis_sizes_def conjugate_def image_Un set_map [symmetric]
        map_fst_zip del: set_map)
  have size_eq: "label_size ops l = assign (U @ js) (?da @ dims) l" if "l \<in> set U \<union> set js" for l
    unfolding assign_def
    by (rule label_size_assign [OF dC ax1]) (use keys that set_labels in simp)
  have size_U: "map (label_size ops) U = ?da"
  proof -
    have "map (label_size ops) U = map (assign (U @ js) (?da @ dims)) U"
      by (intro map_cong refl size_eq) simp
    then show ?thesis using assign_append(1) [OF dUjs lens(2) n] by simp
  qed
  have size_js: "map (label_size ops) js = dims"
  proof -
    have "map (label_size ops) js = map (assign (U @ js) (?da @ dims)) js"
      by (intro map_cong refl size_eq) simp
    then show ?thesis using assign_append(2) [OF dUjs lens(2) n] by simp
  qed
  have size_K: "map (label_size ops) K = ?da"
    unfolding K_def by (simp only: map_filter_select size_js)
  have size_T: "map (label_size ops) T = ?dc"
    unfolding T_def using map_filter_select [of "label_size ops" "\<lambda>i. \<not> P i" js]
    by (simp add: size_js comp_def)
  have size_ab: "map (label_size ops) ab = ?da"
    by (subst L(1)) (simp only: map_mix size_K size_U mix_same [OF lens(3) [unfolded ta_def]])
  have size_out: "map (label_size ops) out = ?da"
    by (subst L(2)) (simp only: map_mix size_K size_U mix_same [OF lens(3) [unfolded ta_def]])
  have valid: "einsum_valid ops out"
  proof -
    have "list_all (\<lambda>(l, d). label_size ops l = d) (axis_sizes ops)"
    proof (simp only: list_all_iff, rule ballI, clarify)
      fix l d assume ld: "(l, d) \<in> set (axis_sizes ops)"
      from map_of_functional(1) [OF dC ax1 ld]
      show "label_size ops l = d" by (simp add: label_size_def)
    qed
    moreover have "list_all (\<lambda>l. l \<in> set (concat (map snd ops))) out"
      using set_out by (simp only: labels set_labels list_all_iff) blast
    moreover have "list_all (\<lambda>(t, ls). length ls = length (shape t)) ops"
      using lens n by (simp add: ops_def conjugate_def)
    ultimately show ?thesis
      using dout by (simp add: einsum_valid_def)
  qed
  have data: "sum_list (map (\<lambda>si. prod_list (map (\<lambda>(t, ls). item t (map (assign (out @ S) (oi @ si)) ls)) ops))
                   (ndindex (map (label_size ops) S)))
        = sum_list (map (\<lambda>x. sum_list
                (map (\<lambda>b. outer psi ! ravel_multi_index (merge ?ks (mix ta x oi) b) dims
                              ! ravel_multi_index (merge ?ks (mix ta oi x) b) dims)
                   (ndindex ?dc))
                 * v ! ravel_multi_index x ?da)
              (ndindex ?da))"
    if oi: "oi \<in> set (ndindex ?da)" for oi
  proof -
    define F where "F e = prod_list (map (\<lambda>(t, ls). item t
        (map (\<lambda>l. if l \<in> set out then assign out oi l else e l) ls)) ops)" for e :: "int \<Rightarrow> nat"
    have lo: "length out = length oi" using oi lens by (simp add: ndindex_length)
    have split: "assign (out @ M) (oi @ si) = (\<lambda>l. if l \<in> set out then assign out oi l else assign M si l)"
      for M si
      by (rule ext, rule assign_append_split [OF lo])
    have 1: "map (\<lambda>si. prod_list (map (\<lambda>(t, ls). item t (map (assign (out @ S) (oi @ si)) ls)) ops))
                   (ndindex (map (label_size ops) S))
        = map (\<lambda>si. F (assign S si)) (ndindex (map (label_size ops) S))"
      by (simp only: split F_def)
    have 2: "sum_list (map (\<lambda>si. F (assign S si)) (ndindex (map (label_size ops) S)))
        = sum_list (map (\<lambda>si. F (assign (ab @ T) si)) (ndindex (map (label_size ops) (ab @ T))))"
      by (rule sum_assign_perm [OF dS dabT setS])
    have 3: "map (label_size ops) (ab @ T) = ?da @ ?dc" by (simp add: size_ab size_T)
    have smd: "F (assign (ab @ T) (x @ c))
        = outer psi ! ravel_multi_index (merge ?ks (mix ta x oi) c) dims
                              ! ravel_multi_index (merge ?ks (mix ta oi x) c) dims
          * v ! ravel_multi_index x ?da"
      if x: "x \<in> set (ndindex ?da)" and c: "c \<in> set (ndindex ?dc)" for x c
    proof -
      let ?env = "assign (out @ ab @ T) (oi @ x @ c)"
      have lx: "length ab = length x" and lc: "length T = length c"
        using x c lens lT by (simp_all add: ndindex_length)
      have lxc: "length (ab @ T) = length (x @ c)" using lx lc by simp
      have eo: "map ?env out = oi" and exc: "map ?env (ab @ T) = x @ c"
        using assign_append [OF L(7) lo lxc] by simp_all
      from exc have "map ?env ab @ map ?env T = x @ c" by simp
      then have ex: "map ?env ab = x" and ec: "map ?env T = c"
        using lx by (simp_all add: append_eq_append_conv)
      have eU: "map ?env U = mix ta oi x"
        by (subst L(3)) (simp only: map_mix eo ex ta_def)
      have eK: "map ?env K = mix ta x oi"
        by (subst L(4)) (simp only: map_mix eo ex ta_def)
      have ef: "map ?env (map ?f js) = merge ?ks (mix ta oi x) c"
        by (simp only: L(5) map_merge_distrib eU ec)
      have ej: "map ?env js = merge ?ks (mix ta x oi) c"
        by (subst L(6)) (simp only: map_merge_distrib eK ec)
      have nk: "length ?ks = length dims" using n by simp
      have r: "list_all2 (<) (mix ta x oi) ?da" "list_all2 (<) (mix ta oi x) ?da"
        using x oi lens(3) by (simp_all add: set_ndindex mix_in_range)
      have b: "ravel_multi_index (merge ?ks (mix ta x oi) c) dims < length psi"
        "ravel_multi_index (merge ?ks (mix ta oi x) c) dims < length psi"
        using r c psi nk by (auto simp: set_ndindex intro!: ravel_bound merge_in_range)
      have "F (assign (ab @ T) (x @ c))
          = prod_list (map (\<lambda>(t, ls). item t (map ?env ls)) ops)"
        by (simp only: F_def split [symmetric])
      also have "\<dots> = v ! ravel_multi_index x ?da
          * (cnj (psi ! ravel_multi_index (merge ?ks (mix ta oi x) c) dims)
             * (psi ! ravel_multi_index (merge ?ks (mix ta x oi) c) dims * 1))"
        unfolding ops_def
        by (simp only: list.map prod.case ex ef ej prod_list.Cons prod_list.Nil)
           (simp add: item_def conjugate_def b)
      finally show ?thesis using b by (simp add: outer_nth)
    qed
    have "sum_list (map (\<lambda>si. F (assign (ab @ T) si)) (ndindex (?da @ ?dc)))
        = sum_list (map (\<lambda>x. sum_list (map (\<lambda>c. F (assign (ab @ T) (x @ c))) (ndindex ?dc)))
            (ndindex ?da))"
      by (rule sum_ndindex_append)
    also have "\<dots> = sum_list (map (\<lambda>x. sum_list
                (map (\<lambda>b. outer psi ! ravel_multi_index (merge ?ks (mix ta x oi) b) dims
                              ! ravel_multi_index (merge ?ks (mix ta oi x) b) dims
                           * v ! ravel_multi_index x ?da)
                   (ndindex ?dc)))
              (ndindex ?da))"
      by (intro arg_cong [where f = sum_list] map_cong refl smd)
    also have "\<dots> = sum_list (map (\<lambda>x. sum_list
                (map (\<lambda>b. outer psi ! ravel_multi_index (merge ?ks (mix ta x oi) b) dims
                              ! ravel_multi_index (merge ?ks (mix ta oi x) b) dims)
                   (ndindex ?dc))
                 * v ! ravel_multi_index x ?da)
              (ndindex ?da))"
      by (simp only: sum_list_mult_const)
    finally show ?thesis by (simp only: 1 2 3)
  qed
  have "einsum ops (Some out) = Inr \<lparr>shape = ?da,
      data = map (\<lambda>oi. sum_list (map (\<lambda>si. prod_list
               (map (\<lambda>(t, ls). item t (map (assign (out @ S) (oi @ si)) ls)) ops))
                   (ndindex (map (label_size ops) S)))) (ndindex ?da)\<rparr>"
    unfolding einsum_def Let_def labels
    by (simp only: option.case valid size_out S_def [symmetric] not_True_eq_False if_False)
  also have "map (\<lambda>oi. sum_list (map (\<lambda>si. prod_list
               (map (\<lambda>(t, ls). item t (map (assign (out @ S) (oi @ si)) ls)) ops))
                   (ndindex (map (label_size ops) S)))) (ndindex ?da)
      = matvec (partial_transpose (partial_trace (outer psi) dims ?ks) ?da ta) v"
    by (subst matvec_partial_transpose [OF lens(3) v], intro map_cong refl data)
  finally show ?thesis
    unfolding ops_def out_def ab_def ta_def K_def .
qed

lemma lazy_ptr_ppt_dot_explicit:
  assumes abc: "is_array psi_abc" and ab: "is_array psi_ab"
    and sabc: "nd_size psi_abc = prod_list dims"
    and sab: "nd_size psi_ab = prod_list (dims_of dims (int2tup sysa @ int2tup sysb))"
  shows "lazy_ptr_ppt_dot einsum psi_abc psi_ab dims sysa sysb =
         Inr \<lparr>shape = shape psi_ab,
              data = matvec
                (partial_transpose
                   (partial_trace (outer (data psi_abc)) dims
                      (keep_mask (length dims) (int2tup sysa @ int2tup sysb)))
                   (dims_of dims (int2tup sysa @ int2tup sysb))
                   (select (keep_mask (length dims) (int2tup sysa @ int2tup sysb))
                      (keep_mask (length dims) (int2tup sysa))))
                (data psi_ab)\<rparr>"
proof -
  let ?n = "int (length dims)"
  let ?js = "py_range 0 ?n" and ?ups = "py_range ?n (2 * ?n)"
  let ?A = "\<lambda>i. i \<in> set (int2tup sysa)"
  let ?P = "\<lambda>i. i \<in> set (int2tup sysa) \<or> i \<in> set (int2tup sysb)"
  let ?da = "select (map ?P ?js) dims"
  let ?ta = "map ?A (filter ?P ?js)"
  let ?M = "matvec (partial_transpose (partial_trace (outer (data psi_abc)) dims (map ?P ?js))
                      ?da ?ta) (data psi_ab)"
  have km: "keep_mask (length dims) (int2tup sysa @ int2tup sysb) = map ?P ?js"
    by (simp add: keep_mask_py_range)
  have da: "dims_of dims (int2tup sysa @ int2tup sysb) = ?da"
    by (simp only: dims_of_select km)
  have da': "map snd (filter (\<lambda>(i, d). int i \<in> set (int2tup sysa) \<or> int i \<in> set (int2tup sysb))
                        (enumerate 0 dims)) = ?da"
    using da by (simp add: dims_of_def)
  have ta: "select (map ?P ?js) (keep_mask (length dims) (int2tup sysa)) = ?ta"
    by (simp only: keep_mask_py_range map_filter_select)
  have n: "length ?js = length dims" by (simp add: py_range_facts)
  have v: "length (data psi_ab) = prod_list ?da"
    using ab sab by (simp add: is_array_def nd_size_def da)
  have psi: "length (data psi_abc) = prod_list dims"
    using abc sabc by (simp add: is_array_def nd_size_def)
  have r1: "reshape (asarray psi_abc) dims = Inr \<lparr>shape = dims, data = data psi_abc\<rparr>"
    using sabc by (simp add: reshape_def asarray_def)
  have r2: "reshape (asarray psi_ab) ?da = Inr \<lparr>shape = ?da, data = data psi_ab\<rparr>"
    using sab by (simp add: reshape_def asarray_def da)
  note e = einsum_ptr_ppt_dot [OF py_range_facts(1) [of 0 ?n]
      py_range_facts(1) [of ?n "2 * ?n"] planner_pre(2) [of ?n]
      planner_pre(1) [of ?P ?n] n v psi, where A = ?A]
  have r3: "reshape \<lparr>shape = ?da, data = ?M\<rparr> (shape psi_ab)
      = Inr \<lparr>shape = shape psi_ab, data = ?M\<rparr>"
    using sab by (simp add: reshape_def nd_size_def da)
  show ?thesis
    unfolding lazy_ptr_ppt_dot_def Let_def
    by (simp only: sum.case get_cntrct_inds_ptr_ppt_dot_closed prod.case da da' r1 r2 e r3 km ta)
qed

text \<open>
  Claim C2.  For every dimension vector \<open>dims\<close>, all subsets \<open>sysa\<close> and \<open>sysb\<close> and all
  kets \<open>psi_abc\<close> of size \<open>prod dims\<close> and \<open>psi_ab\<close> of the size of the kept dimensions
  (those at the indices in \<open>sysa\<close> or \<open>sysb\<close>), \<^verbatim>\<open>lazy_ptr_ppt_dot\<close> returns, in the shape
  of \<open>psi_ab\<close>, the vector obtained by tracing the outer product of \<open>psi_abc\<close> with its
  conjugate over the subsystems that are not kept, transposing the resulting operator on
  the subsystems in \<open>sysa\<close>, and multiplying it by \<open>psi_ab\<close>; its entries are in the
  ascending order of the kept subsystems.
\<close>

theorem lazy_ptr_ppt_dot_partial_transpose:
  "is_array psi_abc \<and> is_array psi_ab \<and> nd_size psi_abc = prod_list dims \<and>
   nd_size psi_ab = prod_list (dims_of dims (int2tup sysa @ int2tup sysb)) \<longrightarrow>
     lazy_ptr_ppt_dot einsum psi_abc psi_ab dims sysa sysb =
       Inr \<lparr>shape = shape psi_ab,
            data = matvec
              (partial_transpose
                 (partial_trace (outer (data psi_abc)) dims
                    (keep_mask (length dims) (int2tup sysa @ int2tup sysb)))
                 (dims_of dims (int2tup sysa @ int2tup sysb))
                 (select (keep_mask (length dims) (int2tup sysa @ int2tup sysb))
                    (keep_mask (length dims) (int2tup sysa))))
              (data psi_ab)\<rparr>"
  by (intro impI lazy_ptr_ppt_dot_explicit) simp_all

theorem lazy_ptr_ppt_dot_partial_transpose_witness:
  "is_array \<lparr>shape = [8], data = [1, 0, \<i>, 0, 0, 2, 0, 0]\<rparr> \<and>
   is_array \<lparr>shape = [4], data = [0, 1, 0, 0]\<rparr> \<and>
   nd_size \<lparr>shape = [8], data = [1, 0, \<i>, 0, 0, 2, 0, 0]\<rparr> = prod_list [2, 2, 2] \<and>
   nd_size \<lparr>shape = [4], data = [0, 1, 0, 0]\<rparr>
     = prod_list (dims_of [2, 2, 2] (int2tup (SysInt 0) @ int2tup (SysInt 1))) \<and>
   lazy_ptr_ppt_dot einsum \<lparr>shape = [8], data = [1, 0, \<i>, 0, 0, 2, 0, 0]\<rparr>
     \<lparr>shape = [4], data = [0, 1, 0, 0]\<rparr> [2, 2, 2] (SysInt 0) (SysInt 1)
     = Inr \<lparr>shape = [4], data = [- \<i>, 1, 0, 0]\<rparr>"
proof -
  let ?psi = "\<lparr>shape = [8], data = [1, 0, \<i>, 0, 0, 2, 0, 0]\<rparr>"
  let ?v = "\<lparr>shape = [4], data = [0, 1, 0, 0]\<rparr>"
  have h: "is_array ?psi \<and> is_array ?v \<and> nd_size ?psi = prod_list [2, 2, 2] \<and>
      nd_size ?v = prod_list (dims_of [2, 2, 2] (int2tup (SysInt 0) @ int2tup (SysInt 1)))"
    by (simp add: is_array_def nd_size_def dims_of_def enumerate_eq_zip upt_rec)
  have mv: "\<lparr>shape = shape ?v,
            data = matvec
              (partial_transpose
                 (partial_trace (outer (data ?psi)) [2, 2, 2]
                    (keep_mask (length [2 :: nat, 2, 2]) (int2tup (SysInt 0) @ int2tup (SysInt 1))))
                 (dims_of [2, 2, 2] (int2tup (SysInt 0) @ int2tup (SysInt 1)))
                 (select (keep_mask (length [2 :: nat, 2, 2]) (int2tup (SysInt 0) @ int2tup (SysInt 1)))
                    (keep_mask (length [2 :: nat, 2, 2]) (int2tup (SysInt 0)))))
              (data ?v)\<rparr>
      = \<lparr>shape = [4], data = [- \<i>, 1, 0, 0]\<rparr>"
    by code_simp
  note t = lazy_ptr_ppt_dot_partial_transpose [of ?psi ?v "[2, 2, 2]" "SysInt 0" "SysInt 1"]
  from t h have "lazy_ptr_ppt_dot einsum ?psi ?v [2, 2, 2] (SysInt 0) (SysInt 1)
      = Inr \<lparr>shape = [4], data = [- \<i>, 1, 0, 0]\<rparr>"
    unfolding mv by (rule mp)
  with h show ?thesis by simp
qed


section \<open>The adjoint of the operators\<close>

text \<open>
  Claim C3.  \<^verbatim>\<open>_adjoint\<close> of either operator returns an operator of the same class on
  the complex conjugate of the stored ket, with the same \<open>dims\<close> and subsets.  That
  operator is not the adjoint of a complex ket's operator: for the ket \<open>(1, 0, \<i>, 0)\<close>
  with \<open>dims = (2, 2)\<close> and \<open>sysa = 0\<close>, \<open>u = (1, 0)\<close> and \<open>v = (0, 1)\<close>, the inner
  product of \<open>u\<close> with \<open>Op v\<close> is \<open>- \<i>\<close> and that of \<open>Op.adjoint() u\<close> with \<open>v\<close> is
  \<open>\<i>\<close>; likewise for the ket \<open>(1, 0, \<i>, 0, 0, 0, 0, 0)\<close> with \<open>dims = (2, 2, 2)\<close>,
  \<open>sysa = 0\<close> and \<open>sysb = 1\<close>, \<open>u = (1, 0, 0, 0)\<close> and \<open>v = (0, 1, 0, 0)\<close>.
\<close>

theorem adjoint_conjugates_ket:
  "LazyPtrOperatr_adjoint (LazyPtrOperatr_init psi_ab dims sysa)
     = LazyPtrOperatr_init (conjugate psi_ab) dims (SysTuple (int2tup sysa)) \<and>
   LazyPtrPptOperator_adjoint (LazyPtrPptOperator_init psi_abc dims sysa sysb)
     = LazyPtrPptOperator_init (conjugate psi_abc) dims
         (SysTuple (int2tup sysa)) (SysTuple (int2tup sysb)) \<and>
   LazyPtrOperatr_matvec einsum
       (LazyPtrOperatr_init \<lparr>shape = [4], data = [1, 0, \<i>, 0]\<rparr> [2, 2] (SysInt 0))
       \<lparr>shape = [2], data = [0, 1]\<rparr>
     = Inr \<lparr>shape = [2], data = [- \<i>, 1]\<rparr> \<and>
   vdot [1, 0] [- \<i>, 1] = - \<i> \<and>
   LazyPtrOperatr_matvec einsum
       (LazyPtrOperatr_adjoint
          (LazyPtrOperatr_init \<lparr>shape = [4], data = [1, 0, \<i>, 0]\<rparr> [2, 2] (SysInt 0)))
       \<lparr>shape = [2], data = [1, 0]\<rparr>
     = Inr \<lparr>shape = [2], data = [1, - \<i>]\<rparr> \<and>
   vdot [1, - \<i>] [0, 1] = \<i> \<and>
   LazyPtrPptOperator_matvec einsum
       (LazyPtrPptOperator_init \<lparr>shape = [8], data = [1, 0, \<i>, 0, 0, 0, 0, 0]\<rparr>
          [2, 2, 2] (SysInt 0) (SysInt 1))
       \<lparr>shape = [4], data = [0, 1, 0, 0]\<rparr>
     = Inr \<lparr>shape = [4], data = [- \<i>, 1, 0, 0]\<rparr> \<and>
   vdot [1, 0, 0, 0] [- \<i>, 1, 0, 0] = - \<i> \<and>
   LazyPtrPptOperator_matvec einsum
       (LazyPtrPptOperator_adjoint
          (LazyPtrPptOperator_init \<lparr>shape = [8], data = [1, 0, \<i>, 0, 0, 0, 0, 0]\<rparr>
             [2, 2, 2] (SysInt 0) (SysInt 1)))
       \<lparr>shape = [4], data = [1, 0, 0, 0]\<rparr>
     = Inr \<lparr>shape = [4], data = [1, - \<i>, 0, 0]\<rparr> \<and>
   vdot [1, - \<i>, 0, 0] [0, 1, 0, 0] = \<i>"
proof (intro conjI)
  show "LazyPtrOperatr_adjoint (LazyPtrOperatr_init psi_ab dims sysa)
     = LazyPtrOperatr_init (conjugate psi_ab) dims (SysTuple (int2tup sysa))"
    by (simp add: LazyPtrOperatr_adjoint_def LazyPtrOperatr_init_def Let_def)
  show "LazyPtrPptOperator_adjoint (LazyPtrPptOperator_init psi_abc dims sysa sysb)
     = LazyPtrPptOperator_init (conjugate psi_abc) dims
         (SysTuple (int2tup sysa)) (SysTuple (int2tup sysb))"
    by (simp add: LazyPtrPptOperator_adjoint_def LazyPtrPptOperator_init_def Let_def)
  show "LazyPtrOperatr_matvec einsum
       (LazyPtrOperatr_init \<lparr>shape = [4], data = [1, 0, \<i>, 0]\<rparr> [2, 2] (SysInt 0))
       \<lparr>shape = [2], data = [0, 1]\<rparr>
     = Inr \<lparr>shape = [2], data = [- \<i>, 1]\<rparr>"
    by code_simp
  show "vdot [1, 0] [- \<i>, 1] = - \<i>" by (simp add: vdot_def)
  show "LazyPtrOperatr_matvec einsum
       (LazyPtrOperatr_adjoint
          (LazyPtrOperatr_init \<lparr>shape = [4], data = [1, 0, \<i>, 0]\<rparr> [2, 2] (SysInt 0)))
       \<lparr>shape = [2], data = [1, 0]\<rparr>
     = Inr \<lparr>shape = [2], data = [1, - \<i>]\<rparr>"
    by code_simp
  show "vdot [1, - \<i>] [0, 1] = \<i>" by (simp add: vdot_def)
  show "LazyPtrPptOperator_matvec einsum
       (LazyPtrPptOperator_init \<lparr>shape = [8], data = [1, 0, \<i>, 0, 0, 0, 0, 0]\<rparr>
          [2, 2, 2] (SysInt 0) (SysInt 1))
       \<lparr>shape = [4], data = [0, 1, 0, 0]\<rparr>
     = Inr \<lparr>shape = [4], data = [- \<i>, 1, 0, 0]\<rparr>"
    by code_simp
  show "vdot [1, 0, 0, 0] [- \<i>, 1, 0, 0] = - \<i>" by (simp add: vdot_def)
  show "LazyPtrPptOperator_matvec einsum
       (LazyPtrPptOperator_adjoint
          (LazyPtrPptOperator_init \<lparr>shape = [8], data = [1, 0, \<i>, 0, 0, 0, 0, 0]\<rparr>
             [2, 2, 2] (SysInt 0) (SysInt 1)))
       \<lparr>shape = [4], data = [1, 0, 0, 0]\<rparr>
     = Inr \<lparr>shape = [4], data = [1, - \<i>, 0, 0]\<rparr>"
    by code_simp
  show "vdot [1, - \<i>, 0, 0] [0, 1, 0, 0] = \<i>" by (simp add: vdot_def)
qed

end
